theory Spec2Isabelle
  imports
    Complex_Main
    "HOL-Library.Char_ord"
    "HOL-Library.List_Lexorder"
    "HOL-Library.Multiset"
    "HOL-Library.Log_Nat"
begin

section \<open>Consensus voting of the eligibility-trait pipeline (scripts/consensus.py)\<close>

text \<open>
  The development embeds the functions of \<^verbatim>\<open>scripts/consensus.py\<close>:
  \<^verbatim>\<open>calculate_consensus\<close>, the two phase aggregators, \<^verbatim>\<open>merge_umbrella_proposals\<close>
  and \<^verbatim>\<open>generate_summary_stats\<close>.

  Conventions of the embedding:
  \<^item> a Python \<^verbatim>\<open>str\<close> is a \<^typ>\<open>string\<close>; a character outside ASCII is given by the
    bytes of its UTF-8 encoding, which keeps both equality and the code-point order
    that \<^verbatim>\<open>sorted\<close> uses;
  \<^item> a Python \<^verbatim>\<open>dict\<close> is an association list in insertion order, read with
    \<^const>\<open>map_of\<close>;
  \<^item> an exception is the \<^const>\<open>Inl\<close> branch of a sum type.
\<close>

subsection \<open>Exceptions\<close>

text \<open>
  \<^verbatim>\<open>IndexError\<close>, \<^verbatim>\<open>KeyError\<close> and \<^verbatim>\<open>ZeroDivisionError\<close> are the built-in exceptions
  that the embedded statements can raise. The module defines no exception class of its
  own and has no \<^verbatim>\<open>raise\<close> statement. \<open>EmptyVoteSet\<close> is the explicit error that
  the error taxonomy of the specification names for a tally without votes; it is part
  of the type only so that a statement about it can be written down, and no function
  below returns it.
\<close>

datatype error = IndexError | KeyError | ZeroDivisionError | EmptyVoteSet

subsection \<open>The panel and the tier glyphs\<close>

definition MODELS :: "string list" where
  "MODELS = [''claude'', ''gpt5'', ''gemini'', ''deepseek'', ''grok'']"

text \<open>The three flags are the UTF-8 bytes of U+1F7E2, U+1F7E1 and U+1F534.\<close>

definition green_flag :: string where
  "green_flag = [CHR 0xF0, CHR 0x9F, CHR 0x9F, CHR 0xA2]"

definition yellow_flag :: string where
  "yellow_flag = [CHR 0xF0, CHR 0x9F, CHR 0x9F, CHR 0xA1]"

definition red_flag :: string where
  "red_flag = [CHR 0xF0, CHR 0x9F, CHR 0x94, CHR 0xB4]"

subsection \<open>Formatting a count\<close>

text \<open>The decimal rendering of a non-negative integer inside an f-string.\<close>

definition digit_char :: "nat \<Rightarrow> char" where
  "digit_char d = char_of (48 + d)"

fun str_of_nat :: "nat \<Rightarrow> string" where
  "str_of_nat n =
     (if n < 10 then [digit_char n] else str_of_nat (n div 10) @ [digit_char (n mod 10)])"

declare str_of_nat.simps [simp del]

subsection \<open>collections.Counter\<close>

text \<open>
  A \<^verbatim>\<open>Counter\<close> is a dictionary from element to count. Building it from a list runs
  \<^verbatim>\<open>self[elem] = self.get(elem, 0) + 1\<close> over the elements, so a key enters the
  dictionary at its first occurrence and keeps that place.
\<close>

fun counter_incr :: "('a \<times> nat) list \<Rightarrow> 'a \<Rightarrow> ('a \<times> nat) list" where
  "counter_incr [] k = [(k, 1)]"
| "counter_incr ((k', n) # c) k =
     (if k' = k then (k', n + 1) # c else (k', n) # counter_incr c k)"

definition Counter :: "'a list \<Rightarrow> ('a \<times> nat) list" where
  "Counter elems = foldl counter_incr [] elems"

text \<open>
  \<^verbatim>\<open>most_common(1)\<close> is \<^verbatim>\<open>heapq.nlargest(1, self.items(), key=itemgetter(1))\<close>, which for
  \<open>n = 1\<close> is \<^verbatim>\<open>max(it, default=sentinel, key=key)\<close> wrapped in a list: the empty list
  for an empty counter, and otherwise the first item, in iteration order, whose count
  no later item exceeds (\<^verbatim>\<open>max\<close> replaces its candidate only by a strictly larger one).
\<close>

fun max_by_count :: "('a \<times> nat) \<Rightarrow> ('a \<times> nat) list \<Rightarrow> ('a \<times> nat)" where
  "max_by_count best [] = best"
| "max_by_count best (item # items) =
     max_by_count (if snd best < snd item then item else best) items"

definition most_common_1 :: "('a \<times> nat) list \<Rightarrow> ('a \<times> nat) list" where
  "most_common_1 c = (case c of [] \<Rightarrow> [] | item # items \<Rightarrow> [max_by_count item items])"

subsection \<open>calculate_consensus\<close>

text \<open>
  \<^verbatim>\<open>most_common(1)[0]\<close> raises \<^verbatim>\<open>IndexError\<close> on the empty list; every later statement
  is total.
\<close>

definition calculate_consensus :: "string list \<Rightarrow> error + (string \<times> string \<times> string)" where
  "calculate_consensus votes =
     (let vote_counts = Counter votes in
      case most_common_1 vote_counts of
        [] \<Rightarrow> Inl IndexError
      | most_common # _ \<Rightarrow>
          let consensus_value = fst most_common;
              agreement_count = snd most_common;
              agreement_ratio = str_of_nat agreement_count @ ''/'' @ str_of_nat (length votes);
              flag = (if agreement_count \<ge> 4 then green_flag
                      else if agreement_count = 3 then yellow_flag
                      else red_flag)
          in Inr (consensus_value, agreement_ratio, flag))"

subsection \<open>The result table\<close>

text \<open>
  A row is the dictionary appended to \<^verbatim>\<open>rows\<close>: column name to cell, where a cell is a
  string or \<^verbatim>\<open>None\<close>. \<^verbatim>\<open>pd.DataFrame(rows)\<close> keeps the rows and takes as its columns
  the keys of the row dictionaries in order of first appearance; built from an empty
  list it has no rows and no columns.
\<close>

type_synonym cell = "string option"

type_synonym row = "(string \<times> cell) list"

record dataframe =
  columns :: "string list"
  rows :: "row list"

fun first_seen :: "'a list \<Rightarrow> 'a list" where
  "first_seen [] = []"
| "first_seen (x # xs) = x # removeAll x (first_seen xs)"

definition DataFrame :: "row list \<Rightarrow> dataframe" where
  "DataFrame rs = \<lparr>columns = first_seen (concat (map (map fst) rs)), rows = rs\<rparr>"

subsection \<open>The phase aggregators\<close>

text \<open>\<^verbatim>\<open>model_results\<close>: source name to that source's dictionary from item to label.\<close>

type_synonym model_results = "(string \<times> (string \<times> string) list) list"

text \<open>
  The set built by \<^verbatim>\<open>all_traits.update(results.keys())\<close> over all entries of
  \<^verbatim>\<open>model_results\<close> (named \<^verbatim>\<open>all_umbrellas\<close> in phase 3).
\<close>

definition all_traits :: "model_results \<Rightarrow> string set" where
  "all_traits model_results =
     fold (\<lambda>(model, results) all. all \<union> set (map fst results)) model_results {}"

text \<open>
  The guard \<^verbatim>\<open>model in model_results and trait in model_results[model]\<close> together with
  the read \<^verbatim>\<open>model_results[model][trait]\<close> it protects.
\<close>

definition lookup_vote :: "model_results \<Rightarrow> string \<Rightarrow> string \<Rightarrow> string option" where
  "lookup_vote model_results model trait =
     (case map_of model_results model of
        None \<Rightarrow> None
      | Some results \<Rightarrow> map_of results trait)"

text \<open>
  One pass of the loop over \<^verbatim>\<open>MODELS\<close>; the state is \<^verbatim>\<open>(votes, model_votes)\<close>. The
  names in \<^verbatim>\<open>MODELS\<close> are distinct, so every assignment to \<^verbatim>\<open>model_votes[model]\<close> adds
  a new key at the end.
\<close>

definition cast_vote ::
  "model_results \<Rightarrow> string \<Rightarrow> string list \<times> row \<Rightarrow> string \<Rightarrow> string list \<times> row" where
  "cast_vote model_results trait state model =
     (case state of (votes, model_votes) \<Rightarrow>
        (case lookup_vote model_results model trait of
           Some vote \<Rightarrow> (votes @ [vote], model_votes @ [(model, Some vote)])
         | None \<Rightarrow> (votes, model_votes @ [(model, None)])))"

definition collect_votes :: "model_results \<Rightarrow> string \<Rightarrow> string list \<times> row" where
  "collect_votes model_results trait = foldl (cast_vote model_results trait) ([], []) MODELS"

text \<open>
  The loop over the sorted items. The two aggregators differ only in the names of the
  first two columns, which are the parameters \<open>item_col\<close> and \<open>label_col\<close>.
\<close>

fun aggregate_rows ::
  "string \<Rightarrow> string \<Rightarrow> model_results \<Rightarrow> string list \<Rightarrow> error + row list" where
  "aggregate_rows item_col label_col model_results [] = Inr []"
| "aggregate_rows item_col label_col model_results (trait # traits) =
     (case collect_votes model_results trait of (votes, model_votes) \<Rightarrow>
        if votes \<noteq> [] then
          (case calculate_consensus votes of
             Inl e \<Rightarrow> Inl e
           | Inr (consensus, agreement, flag) \<Rightarrow>
               (case aggregate_rows item_col label_col model_results traits of
                  Inl e \<Rightarrow> Inl e
                | Inr rest \<Rightarrow>
                    Inr (([(item_col, Some trait), (label_col, Some consensus),
                           (''agreement'', Some agreement), (''flag'', Some flag)]
                          @ model_votes) # rest)))
        else aggregate_rows item_col label_col model_results traits)"

definition aggregate_results ::
  "string \<Rightarrow> string \<Rightarrow> model_results \<Rightarrow> error + dataframe" where
  "aggregate_results item_col label_col model_results =
     (case aggregate_rows item_col label_col model_results
             (sorted_list_of_set (all_traits model_results)) of
        Inl e \<Rightarrow> Inl e
      | Inr rs \<Rightarrow> Inr (DataFrame rs))"

definition aggregate_phase2_results :: "model_results \<Rightarrow> error + dataframe" where
  "aggregate_phase2_results model_results =
     aggregate_results ''trait'' ''umbrella'' model_results"

definition aggregate_phase3_results :: "model_results \<Rightarrow> error + dataframe" where
  "aggregate_phase3_results model_results =
     aggregate_results ''umbrella'' ''final_category'' model_results"

subsection \<open>merge_umbrella_proposals\<close>

text \<open>
  The normalisation \<^verbatim>\<open>cat.lower().strip()\<close> calls two methods of the Python runtime.
  What they do to a character outside ASCII is decided by the Unicode database of the
  runtime (the case mappings, the rule for a final sigma, the white-space property),
  which is no part of the repository. The two methods are therefore parameters of the
  model, written \<open>lower\<close> and \<open>strip\<close> and acting on the UTF-8 form of a string: a
  statement about the merger is a statement for all functions in their place, and so
  for \<^verbatim>\<open>str.lower\<close> and \<^verbatim>\<open>str.strip\<close> of any runtime, on every string.

  The inner loop over one source's list, then the loop over the sources.
\<close>

definition count_categories ::
  "(string \<Rightarrow> string) \<Rightarrow> (string \<Rightarrow> string) \<Rightarrow>
   (string \<times> nat) list \<Rightarrow> string list \<Rightarrow> (string \<times> nat) list" where
  "count_categories lower strip category_counts categories =
     foldl (\<lambda>counts cat. let normalized = strip (lower cat) in counter_incr counts normalized)
       category_counts categories"

definition merge_umbrella_proposals ::
  "(string \<Rightarrow> string) \<Rightarrow> (string \<Rightarrow> string) \<Rightarrow>
   (string \<times> string list) list \<Rightarrow> int \<Rightarrow> string list" where
  "merge_umbrella_proposals lower strip model_proposals threshold =
     (let category_counts =
            foldl (\<lambda>counts (model, categories). count_categories lower strip counts categories)
              [] model_proposals;
          unified = map fst (filter (\<lambda>(cat, count). int count \<ge> threshold) category_counts)
      in sort unified)"

text \<open>
  On a string of ASCII characters (\<^verbatim>\<open>str.isascii\<close>) the two methods do not depend on
  the Unicode database: \<^verbatim>\<open>str.lower\<close> maps the letters A to Z to a to z and keeps every
  other character, and \<^verbatim>\<open>str.strip\<close> removes from both ends the characters for which
  \<^verbatim>\<open>str.isspace\<close> holds, which among the ASCII characters are the codes 9 to 13 and 28
  to 32. The functions \<open>ascii_lower\<close> and \<open>ascii_strip\<close> describe the two methods on
  such strings and on no others; they enter a statement only through the hypothesis
  that \<open>lower\<close> and \<open>strip\<close> agree with them on ASCII strings.
\<close>

definition isascii :: "string \<Rightarrow> bool" where
  "isascii s = list_all (\<lambda>c. (of_char c :: nat) < 128) s"

definition ascii_lower_char :: "char \<Rightarrow> char" where
  "ascii_lower_char c =
     (let n = (of_char c :: nat) in if 65 \<le> n \<and> n \<le> 90 then char_of (n + 32) else c)"

definition ascii_lower :: "string \<Rightarrow> string" where
  "ascii_lower s = map ascii_lower_char s"

definition ascii_isspace :: "char \<Rightarrow> bool" where
  "ascii_isspace c =
     (let n = (of_char c :: nat) in (9 \<le> n \<and> n \<le> 13) \<or> (28 \<le> n \<and> n \<le> 32))"

definition ascii_strip :: "string \<Rightarrow> string" where
  "ascii_strip s = rev (dropWhile ascii_isspace (rev (dropWhile ascii_isspace s)))"

subsection \<open>Floating-point arithmetic\<close>

text \<open>
  A Python \<^verbatim>\<open>float\<close> is an IEEE 754 binary64 number. A finite one is a rational number,
  and the model computes with that rational: an operation yields the exact result
  rounded to the nearest binary64 value, ties to the even significand. Overflow is not
  modelled; no operand below exceeds 101.

  \<open>ilog2 x\<close> is the integer part of the binary logarithm of a positive rational,
  found from the bit lengths of numerator and denominator. \<open>to_float\<close> rounds to a
  multiple of the unit in the last place: 52 fraction bits below the leading bit, and
  the fixed unit \<open>2 powi (- 1074)\<close> in the subnormal range.
\<close>

definition round_half_even :: "rat \<Rightarrow> int" where
  "round_half_even x =
     (let f = \<lfloor>x\<rfloor>; d = x - of_int f in
      if d < 1 / 2 then f else if 1 / 2 < d then f + 1 else if even f then f else f + 1)"

definition ilog2 :: "rat \<Rightarrow> int" where
  "ilog2 x =
     (case quotient_of x of (p, q) \<Rightarrow>
        let d = bitlen p - bitlen q in if 2 powi d \<le> x then d else d - 1)"

definition to_float :: "rat \<Rightarrow> rat" where
  "to_float x =
     (if x = 0 then 0
      else let e = max (ilog2 \<bar>x\<bar>) (- 1022); ulp = 2 powi (e - 52)
           in of_int (round_half_even (x / ulp)) * ulp)"

text \<open>
  \<^verbatim>\<open>int / int\<close> raises \<^verbatim>\<open>ZeroDivisionError\<close> for a zero divisor and otherwise returns
  the correctly rounded quotient. \<^verbatim>\<open>round(x, ndigits)\<close> rounds the exact value of \<open>x\<close>
  to \<open>ndigits\<close> decimal places, ties to even, and returns the float nearest to
  that decimal.
\<close>

definition int_true_divide :: "int \<Rightarrow> int \<Rightarrow> error + rat" where
  "int_true_divide a b =
     (if b = 0 then Inl ZeroDivisionError else Inr (to_float (of_int a / of_int b)))"

definition float_mul :: "rat \<Rightarrow> rat \<Rightarrow> rat" where
  "float_mul x y = to_float (x * y)"

definition float_round :: "rat \<Rightarrow> nat \<Rightarrow> rat" where
  "float_round x ndigits =
     to_float (of_int (round_half_even (x * 10 ^ ndigits)) / 10 ^ ndigits)"

subsection \<open>generate_summary_stats\<close>

record summary_stats =
  total :: nat
  green :: nat
  green_pct :: rat
  yellow :: nat
  yellow_pct :: rat
  red :: nat
  red_pct :: rat

text \<open>
  \<^verbatim>\<open>len(df[df[flag_column] == glyph])\<close>: selecting a column that the frame does not
  have raises \<^verbatim>\<open>KeyError\<close>; otherwise the rows whose cell equals the glyph are counted
  (a missing cell equals no glyph).
\<close>

definition flag_count :: "dataframe \<Rightarrow> string \<Rightarrow> string \<Rightarrow> error + nat" where
  "flag_count df flag_column glyph =
     (if flag_column \<in> set (columns df)
      then Inr (length (filter (\<lambda>r. map_of r flag_column = Some (Some glyph)) (rows df)))
      else Inl KeyError)"

text \<open>
  \<^verbatim>\<open>round(k / total * 100, 1)\<close> for a tier count \<open>k\<close>. In the function itself the
  local variables \<^verbatim>\<open>total\<close>, \<^verbatim>\<open>green\<close>, \<^verbatim>\<open>yellow\<close> and \<^verbatim>\<open>red\<close> are written \<open>n\<close>,
  \<open>g\<close>, \<open>y\<close> and \<open>r\<close>, since their names are the names of the fields of the
  record that is returned.
\<close>

definition percentage :: "nat \<Rightarrow> nat \<Rightarrow> error + rat" where
  "percentage k n =
     (case int_true_divide (int k) (int n) of
        Inl e \<Rightarrow> Inl e
      | Inr ratio \<Rightarrow> Inr (float_round (float_mul ratio 100) 1))"

definition generate_summary_stats :: "dataframe \<Rightarrow> string \<Rightarrow> error + summary_stats" where
  "generate_summary_stats df flag_column =
     (let n = length (rows df) in
      case flag_count df flag_column green_flag of Inl e \<Rightarrow> Inl e | Inr g \<Rightarrow>
      case flag_count df flag_column yellow_flag of Inl e \<Rightarrow> Inl e | Inr y \<Rightarrow>
      case flag_count df flag_column red_flag of Inl e \<Rightarrow> Inl e | Inr r \<Rightarrow>
      case percentage g n of Inl e \<Rightarrow> Inl e | Inr g_pct \<Rightarrow>
      case percentage y n of Inl e \<Rightarrow> Inl e | Inr y_pct \<Rightarrow>
      case percentage r n of Inl e \<Rightarrow> Inl e | Inr r_pct \<Rightarrow>
        Inr \<lparr>total = n, green = g, green_pct = g_pct, yellow = y, yellow_pct = y_pct,
             red = r, red_pct = r_pct\<rparr>)"

section \<open>Properties\<close>

subsection \<open>The counter\<close>

text \<open>
  The keys of a counter are the distinct elements of the list in order of first
  occurrence, and the count stored under a key is its number of occurrences.
\<close>

lemma fst_counter_incr:
  "map fst (counter_incr c k) = (if k \<in> fst ` set c then map fst c else map fst c @ [k])"
  by (induction c k rule: counter_incr.induct) auto

lemma map_of_counter_incr:
  "map_of (counter_incr c k) =
     (map_of c)(k \<mapsto> (case map_of c k of None \<Rightarrow> 1 | Some n \<Rightarrow> n + 1))"
  by (induction c k rule: counter_incr.induct) (auto simp: fun_eq_iff)

lemma Counter_snoc: "Counter (xs @ [x]) = counter_incr (Counter xs) x"
  by (simp add: Counter_def)

lemma set_keys_Counter: "fst ` set (Counter xs) = set xs"
proof (induction xs rule: rev_induct)
  case Nil
  show ?case by (simp add: Counter_def)
next
  case (snoc x xs)
  have "set (map fst (Counter (xs @ [x]))) = set (xs @ [x])"
    unfolding Counter_snoc fst_counter_incr using snoc by auto
  then show ?case by simp
qed

lemma distinct_keys_Counter: "distinct (map fst (Counter xs))"
proof (induction xs rule: rev_induct)
  case Nil
  show ?case by (simp add: Counter_def)
next
  case (snoc x xs)
  then show ?case
    unfolding Counter_snoc fst_counter_incr by auto
qed

lemma map_of_Counter:
  "map_of (Counter xs) k = (if k \<in> set xs then Some (count_list xs k) else None)"
proof (induction xs rule: rev_induct)
  case Nil
  show ?case by (simp add: Counter_def)
next
  case (snoc x xs)
  then show ?case
    unfolding Counter_snoc map_of_counter_incr by (auto split: if_splits)
qed

lemma Counter_item_iff:
  "(k, n) \<in> set (Counter xs) \<longleftrightarrow> k \<in> set xs \<and> n = count_list xs k"
  using map_of_eq_Some_iff [OF distinct_keys_Counter, of xs k n]
  by (auto simp: map_of_Counter split: if_splits)

lemma takeWhile_keys_Counter:
  "set (takeWhile (\<lambda>k. k \<noteq> v) (map fst (Counter xs))) = set (takeWhile (\<lambda>k. k \<noteq> v) xs)"
proof (induction xs rule: rev_induct)
  case Nil
  show ?case by (simp add: Counter_def)
next
  case (snoc x xs)
  let ?ks = "map fst (Counter xs)"
  have keys: "set ?ks = set xs"
    using set_keys_Counter [of xs] by simp
  show ?case
  proof (cases "v \<in> set xs")
    case True
    then have "takeWhile (\<lambda>k. k \<noteq> v) (xs @ [x]) = takeWhile (\<lambda>k. k \<noteq> v) xs"
      by (auto simp: takeWhile_append)
    moreover from True keys have "takeWhile (\<lambda>k. k \<noteq> v) (?ks @ [x]) = takeWhile (\<lambda>k. k \<noteq> v) ?ks"
      by (auto simp: takeWhile_append)
    ultimately show ?thesis
      unfolding Counter_snoc fst_counter_incr using snoc by simp
  next
    case False
    then have all: "takeWhile (\<lambda>k. k \<noteq> v) xs = xs" "takeWhile (\<lambda>k. k \<noteq> v) ?ks = ?ks"
      using keys by (auto simp: takeWhile_eq_all_conv)
    have "set (takeWhile (\<lambda>k. k \<noteq> v) (xs @ [x])) = set xs \<union> (if x = v then {} else {x})"
      using False by (auto simp: takeWhile_append)
    moreover have "set (takeWhile (\<lambda>k. k \<noteq> v) (?ks @ [x])) = set xs \<union> (if x = v then {} else {x})"
      using False keys by (auto simp: takeWhile_append)
    moreover have "set (takeWhile (\<lambda>k. k \<noteq> v) ?ks) = set xs \<union> (if x = v then {} else {x})"
      if "x \<in> set xs"
      unfolding all(2) using that False keys by auto
    ultimately show ?thesis
      unfolding Counter_snoc fst_counter_incr keys [simplified] set_keys_Counter
      by (simp split: if_splits)
  qed
qed

lemma Counter_filter_keys:
  "set (map fst (filter (\<lambda>(k, n). P n) (Counter xs))) = {k \<in> set xs. P (count_list xs k)}"
proof (rule set_eqI)
  fix k
  have "k \<in> set (map fst (filter (\<lambda>(k, n). P n) (Counter xs))) \<longleftrightarrow>
        (\<exists>n. (k, n) \<in> set (Counter xs) \<and> P n)"
    by force
  also have "\<dots> \<longleftrightarrow> k \<in> set xs \<and> P (count_list xs k)"
    by (simp add: Counter_item_iff)
  finally show "k \<in> set (map fst (filter (\<lambda>(k, n). P n) (Counter xs))) \<longleftrightarrow>
                k \<in> {k \<in> set xs. P (count_list xs k)}"
    by simp
qed

text \<open>
  \<^const>\<open>max_by_count\<close> returns an item of maximal count, and every item before it
  has a strictly smaller count.
\<close>

lemma max_by_count_mem: "max_by_count b xs \<in> set (b # xs)"
  by (induction xs arbitrary: b) (auto split: if_splits)

lemma max_by_count_ge: "y \<in> set (b # xs) \<Longrightarrow> snd y \<le> snd (max_by_count b xs)"
proof (induction xs arbitrary: b y)
  case Nil
  then show ?case by simp
next
  case (Cons x xs)
  let ?b = "if snd b < snd x then x else b"
  have "snd b \<le> snd (max_by_count ?b xs)" "snd x \<le> snd (max_by_count ?b xs)"
    using Cons.IH [of ?b ?b] by (auto split: if_splits)
  moreover have "y \<in> set xs \<Longrightarrow> snd y \<le> snd (max_by_count ?b xs)"
    using Cons.IH [of y ?b] by simp
  ultimately show ?case using Cons.prems by auto
qed

lemma max_by_count_first:
  "y \<in> set (takeWhile (\<lambda>y. y \<noteq> max_by_count b xs) (b # xs)) \<Longrightarrow>
   snd y < snd (max_by_count b xs)"
proof (induction xs arbitrary: b y)
  case Nil
  then show ?case by simp
next
  case (Cons x xs)
  let ?b = "if snd b < snd x then x else b"
  let ?m = "max_by_count ?b xs"
  have m: "max_by_count b (x # xs) = ?m" by simp
  have ge: "snd ?b \<le> snd ?m" using max_by_count_ge [of ?b ?b xs] by simp
  have IH: "z \<in> set (takeWhile (\<lambda>y. y \<noteq> ?m) (?b # xs)) \<Longrightarrow> snd z < snd ?m" for z
    using Cons.IH by blast
  from Cons.prems have y: "y \<in> set (takeWhile (\<lambda>y. y \<noteq> ?m) (b # x # xs))"
    unfolding m .
  then have bm: "b \<noteq> ?m" by (auto split: if_splits)
  have b_less: "snd b < snd ?m"
  proof (cases "snd b < snd x")
    case True
    then show ?thesis using ge by simp
  next
    case False
    then have "b \<in> set (takeWhile (\<lambda>y. y \<noteq> ?m) (?b # xs))" using bm by simp
    then show ?thesis by (rule IH)
  qed
  from y bm consider "y = b" | "x \<noteq> ?m" "y = x" | "x \<noteq> ?m" "y \<in> set (takeWhile (\<lambda>y. y \<noteq> ?m) xs)"
    by (auto split: if_splits)
  then show ?case unfolding m
  proof cases
    case 1
    then show "snd y < snd ?m" using b_less by simp
  next
    case 2
    show "snd y < snd ?m"
    proof (cases "snd b < snd x")
      case True
      then have "x \<in> set (takeWhile (\<lambda>y. y \<noteq> ?m) (?b # xs))" using 2 by simp
      then show ?thesis using IH 2 by blast
    next
      case False
      then show ?thesis using b_less 2 by simp
    qed
  next
    case 3
    have "?b \<noteq> ?m" using bm 3 by (auto split: if_splits)
    then have "y \<in> set (takeWhile (\<lambda>y. y \<noteq> ?m) (?b # xs))" using 3 by simp
    then show "snd y < snd ?m" by (rule IH)
  qed
qed

lemma takeWhile_set_mono:
  "(\<And>x. P x \<Longrightarrow> Q x) \<Longrightarrow> set (takeWhile P xs) \<subseteq> set (takeWhile Q xs)"
  by (induction xs) auto

lemma most_common_1_Counter:
  assumes "votes \<noteq> []"
  obtains v where
    "most_common_1 (Counter votes) = [(v, count_list votes v)]"
    "v \<in> set votes"
    "\<And>w. w \<in> set votes \<Longrightarrow> count_list votes w \<le> count_list votes v"
    "\<And>w. w \<in> set (takeWhile (\<lambda>w. w \<noteq> v) votes) \<Longrightarrow> count_list votes w < count_list votes v"
proof -
  from assms have "set (Counter votes) \<noteq> {}"
    using set_keys_Counter [of votes] by auto
  then obtain b c where bc: "Counter votes = b # c"
    by (cases "Counter votes") auto
  define m where "m = max_by_count b c"
  have mc: "most_common_1 (Counter votes) = [m]"
    by (simp add: most_common_1_def bc m_def)
  have "m \<in> set (Counter votes)"
    unfolding bc m_def by (rule max_by_count_mem)
  then have m_eq: "m = (fst m, count_list votes (fst m))" and v_in: "fst m \<in> set votes"
    using Counter_item_iff [of "fst m" "snd m" votes] by (auto simp: prod_eq_iff)
  have snd_m: "snd m = count_list votes (fst m)"
    using m_eq by (metis snd_conv)
  have le: "count_list votes w \<le> count_list votes (fst m)" if "w \<in> set votes" for w
  proof -
    from that have "(w, count_list votes w) \<in> set (b # c)"
      using Counter_item_iff [of w "count_list votes w" votes] bc by simp
    from max_by_count_ge [OF this] show ?thesis
      unfolding m_def [symmetric] snd_m by simp
  qed
  have less: "count_list votes w < count_list votes (fst m)"
    if "w \<in> set (takeWhile (\<lambda>w. w \<noteq> fst m) votes)" for w
  proof -
    from that have "w \<in> set (takeWhile (\<lambda>k. k \<noteq> fst m) (map fst (Counter votes)))"
      using takeWhile_keys_Counter [of "fst m" votes] by simp
    then have "w \<in> fst ` set (takeWhile (\<lambda>y. fst y \<noteq> fst m) (Counter votes))"
      by (simp add: takeWhile_map comp_def)
    then obtain y where y: "y \<in> set (takeWhile (\<lambda>y. fst y \<noteq> fst m) (Counter votes))" "fst y = w"
      by auto
    have "set (takeWhile (\<lambda>y. fst y \<noteq> fst m) (Counter votes))
            \<subseteq> set (takeWhile (\<lambda>y. y \<noteq> m) (Counter votes))"
      by (rule takeWhile_set_mono) auto
    with y have y': "y \<in> set (takeWhile (\<lambda>y. y \<noteq> max_by_count b c) (b # c))"
      unfolding bc m_def by blast
    have "y \<in> set (Counter votes)"
      using y(1) set_takeWhileD by fastforce
    then have "snd y = count_list votes w"
      using Counter_item_iff [of "fst y" "snd y" votes] y(2) by (cases y) auto
    with max_by_count_first [OF y'] show ?thesis
      unfolding m_def [symmetric] snd_m by simp
  qed
  show thesis
  proof (rule that [of "fst m"])
    show "most_common_1 (Counter votes) = [(fst m, count_list votes (fst m))]"
      using mc m_eq by simp
  qed (use v_in le less in auto)
qed

subsection \<open>The consensus of one item\<close>

lemma calculate_consensus_nonempty:
  assumes "votes \<noteq> []"
  obtains v where
    "calculate_consensus votes =
       Inr (v, str_of_nat (count_list votes v) @ ''/'' @ str_of_nat (length votes),
            if count_list votes v \<ge> 4 then green_flag
            else if count_list votes v = 3 then yellow_flag else red_flag)"
    "v \<in> set votes"
    "count_list votes v = Max (count_list votes ` set votes)"
    "\<And>w. w \<in> set (takeWhile (\<lambda>w. w \<noteq> v) votes) \<Longrightarrow> count_list votes w < count_list votes v"
proof -
  from most_common_1_Counter [OF assms] obtain v where v:
    "most_common_1 (Counter votes) = [(v, count_list votes v)]"
    "v \<in> set votes"
    "\<And>w. w \<in> set votes \<Longrightarrow> count_list votes w \<le> count_list votes v"
    "\<And>w. w \<in> set (takeWhile (\<lambda>w. w \<noteq> v) votes) \<Longrightarrow> count_list votes w < count_list votes v"
    by blast
  have "Max (count_list votes ` set votes) = count_list votes v"
    using v(2,3) by (intro Max_eqI) auto
  moreover have "calculate_consensus votes =
       Inr (v, str_of_nat (count_list votes v) @ ''/'' @ str_of_nat (length votes),
            if count_list votes v \<ge> 4 then green_flag
            else if count_list votes v = 3 then yellow_flag else red_flag)"
    by (simp add: calculate_consensus_def v(1))
  ultimately show thesis
    by (intro that [of v]) (use v(2,4) in auto)
qed

lemma calculate_consensus_returns:
  assumes "votes \<noteq> []"
  shows "\<exists>c a f. calculate_consensus votes = Inr (c, a, f)"
proof -
  from calculate_consensus_nonempty [OF assms] obtain v where
    "calculate_consensus votes =
       Inr (v, str_of_nat (count_list votes v) @ ''/'' @ str_of_nat (length votes),
            if count_list votes v \<ge> 4 then green_flag
            else if count_list votes v = 3 then yellow_flag else red_flag)"
    by blast
  then show ?thesis by (intro exI)
qed

text \<open>
  Claim C1. On a non-empty vote list \<^const>\<open>calculate_consensus\<close> returns a label
  whose number of occurrences is the maximum over the list. Every label that occurs
  before the first occurrence of the returned label has strictly fewer occurrences, so
  among the labels that share the maximum the one whose first occurrence is earliest is
  returned. For the votes B, A, A, B, C the result is B.
\<close>

theorem calculate_consensus_plurality_first:
  assumes "votes \<noteq> []"
  shows "(\<exists>v r f. calculate_consensus votes = Inr (v, r, f) \<and> v \<in> set votes \<and>
            count_list votes v = Max (count_list votes ` set votes) \<and>
            (\<forall>w \<in> set (takeWhile (\<lambda>w. w \<noteq> v) votes).
               count_list votes w < count_list votes v)) \<and>
         calculate_consensus [''B'', ''A'', ''A'', ''B'', ''C''] = Inr (''B'', ''2/5'', red_flag)"
proof
  from calculate_consensus_nonempty [OF assms] obtain v where v:
    "calculate_consensus votes =
       Inr (v, str_of_nat (count_list votes v) @ ''/'' @ str_of_nat (length votes),
            if count_list votes v \<ge> 4 then green_flag
            else if count_list votes v = 3 then yellow_flag else red_flag)"
    "v \<in> set votes"
    "count_list votes v = Max (count_list votes ` set votes)"
    "\<And>w. w \<in> set (takeWhile (\<lambda>w. w \<noteq> v) votes) \<Longrightarrow> count_list votes w < count_list votes v"
    by blast
  show "\<exists>v r f. calculate_consensus votes = Inr (v, r, f) \<and> v \<in> set votes \<and>
            count_list votes v = Max (count_list votes ` set votes) \<and>
            (\<forall>w \<in> set (takeWhile (\<lambda>w. w \<noteq> v) votes).
               count_list votes w < count_list votes v)"
    using v by blast
  show "calculate_consensus [''B'', ''A'', ''A'', ''B'', ''C''] = Inr (''B'', ''2/5'', red_flag)"
    by code_simp
qed

text \<open>
  The theorem at the votes B, C, A, C, A: C and A both occur twice, C occurs first, and
  the only label before it, B, occurs once.
\<close>

theorem calculate_consensus_plurality_first_witness:
  "[''B'', ''C'', ''A'', ''C'', ''A''] \<noteq> [] \<and>
   calculate_consensus [''B'', ''C'', ''A'', ''C'', ''A''] = Inr (''C'', ''2/5'', red_flag) \<and>
   count_list [''B'', ''C'', ''A'', ''C'', ''A''] ''C''
     = Max (count_list [''B'', ''C'', ''A'', ''C'', ''A''] ` set [''B'', ''C'', ''A'', ''C'', ''A'']) \<and>
   takeWhile (\<lambda>w. w \<noteq> ''C'') [''B'', ''C'', ''A'', ''C'', ''A''] = [''B''] \<and>
   count_list [''B'', ''C'', ''A'', ''C'', ''A''] ''B''
     < count_list [''B'', ''C'', ''A'', ''C'', ''A''] ''C''"
proof -
  have ne: "[''B'', ''C'', ''A'', ''C'', ''A''] \<noteq> []" by simp
  have ev: "calculate_consensus [''B'', ''C'', ''A'', ''C'', ''A''] = Inr (''C'', ''2/5'', red_flag)"
    by code_simp
  from calculate_consensus_plurality_first [OF ne] obtain v r f where
    v: "calculate_consensus [''B'', ''C'', ''A'', ''C'', ''A''] = Inr (v, r, f)"
       "count_list [''B'', ''C'', ''A'', ''C'', ''A''] v
          = Max (count_list [''B'', ''C'', ''A'', ''C'', ''A''] ` set [''B'', ''C'', ''A'', ''C'', ''A''])"
       "\<forall>w \<in> set (takeWhile (\<lambda>w. w \<noteq> v) [''B'', ''C'', ''A'', ''C'', ''A'']).
          count_list [''B'', ''C'', ''A'', ''C'', ''A''] w
            < count_list [''B'', ''C'', ''A'', ''C'', ''A''] v"
    by blast
  from v(1) ev have "v = ''C''" by simp
  with v(2,3) have
    mx: "count_list [''B'', ''C'', ''A'', ''C'', ''A''] ''C''
     = Max (count_list [''B'', ''C'', ''A'', ''C'', ''A''] ` set [''B'', ''C'', ''A'', ''C'', ''A''])"
    and before: "\<forall>w \<in> set (takeWhile (\<lambda>w. w \<noteq> ''C'') [''B'', ''C'', ''A'', ''C'', ''A'']).
      count_list [''B'', ''C'', ''A'', ''C'', ''A''] w
        < count_list [''B'', ''C'', ''A'', ''C'', ''A''] ''C''"
    by (simp_all only:)
  have tw: "takeWhile (\<lambda>w. w \<noteq> ''C'') [''B'', ''C'', ''A'', ''C'', ''A''] = [''B'']"
    by simp
  from before have less: "count_list [''B'', ''C'', ''A'', ''C'', ''A''] ''B''
     < count_list [''B'', ''C'', ''A'', ''C'', ''A''] ''C''"
    unfolding tw by simp
  show ?thesis
    by (rule conjI [OF ne conjI [OF ev conjI [OF mx conjI [OF tw less]]]])
qed

text \<open>
  Claim C2. The flag depends on the plurality count alone: four or more gives the
  green flag, exactly three the yellow flag, two or fewer the red flag. The number of
  votes does not enter: three votes that all agree give the yellow flag.
\<close>

theorem calculate_consensus_flag_thresholds:
  assumes "votes \<noteq> []"
  shows "(\<exists>v r f. calculate_consensus votes = Inr (v, r, f) \<and>
            (4 \<le> Max (count_list votes ` set votes) \<longrightarrow> f = green_flag) \<and>
            (Max (count_list votes ` set votes) = 3 \<longrightarrow> f = yellow_flag) \<and>
            (Max (count_list votes ` set votes) \<le> 2 \<longrightarrow> f = red_flag)) \<and>
         calculate_consensus [x, x, x] = Inr (x, ''3/3'', yellow_flag)"
proof
  from calculate_consensus_nonempty [OF assms] obtain v where v:
    "calculate_consensus votes =
       Inr (v, str_of_nat (count_list votes v) @ ''/'' @ str_of_nat (length votes),
            if count_list votes v \<ge> 4 then green_flag
            else if count_list votes v = 3 then yellow_flag else red_flag)"
    "count_list votes v = Max (count_list votes ` set votes)"
    by blast
  show "\<exists>v r f. calculate_consensus votes = Inr (v, r, f) \<and>
            (4 \<le> Max (count_list votes ` set votes) \<longrightarrow> f = green_flag) \<and>
            (Max (count_list votes ` set votes) = 3 \<longrightarrow> f = yellow_flag) \<and>
            (Max (count_list votes ` set votes) \<le> 2 \<longrightarrow> f = red_flag)"
    unfolding v(2) [symmetric] by (subst v(1)) simp
  have "str_of_nat 3 = ''3''" by code_simp
  then have "str_of_nat (Suc (Suc (Suc 0))) = ''3''"
    by (simp only: numeral_3_eq_3)
  then show "calculate_consensus [x, x, x] = Inr (x, ''3/3'', yellow_flag)"
    by (simp add: calculate_consensus_def Counter_def most_common_1_def)
qed

text \<open>
  The theorem at four votes of which three agree.
\<close>

theorem calculate_consensus_flag_thresholds_witness:
  "[''U1'', ''U2'', ''U1'', ''U1''] \<noteq> [] \<and>
   calculate_consensus [''U1'', ''U2'', ''U1'', ''U1''] = Inr (''U1'', ''3/4'', yellow_flag) \<and>
   Max (count_list [''U1'', ''U2'', ''U1'', ''U1''] ` set [''U1'', ''U2'', ''U1'', ''U1'']) = 3"
proof -
  have ne: "[''U1'', ''U2'', ''U1'', ''U1''] \<noteq> []" by simp
  have ev: "calculate_consensus [''U1'', ''U2'', ''U1'', ''U1''] = Inr (''U1'', ''3/4'', yellow_flag)"
    by code_simp
  have ry: "red_flag \<noteq> yellow_flag" "green_flag \<noteq> yellow_flag"
    by (simp_all add: green_flag_def yellow_flag_def red_flag_def)
  from calculate_consensus_flag_thresholds [OF ne] ev ry
  have "Max (count_list [''U1'', ''U2'', ''U1'', ''U1''] ` set [''U1'', ''U2'', ''U1'', ''U1'']) = 3"
    by (auto simp: not_le)
  then show ?thesis by (rule conjI [OF ne conjI [OF ev]])
qed

text \<open>
  Claim C3, as stated: on the empty list an explicit "no votes" error is raised. The
  function has no such check. The exception comes from indexing the empty result of
  \<^verbatim>\<open>most_common(1)\<close> and is an \<^verbatim>\<open>IndexError\<close>.
\<close>

theorem calculate_consensus_empty_not_explicit:
  "calculate_consensus [] = Inl IndexError \<and> calculate_consensus [] \<noteq> Inl EmptyVoteSet"
  by (simp add: calculate_consensus_def Counter_def most_common_1_def)

text \<open>
  Claim C3, amended. On the empty list \<^const>\<open>calculate_consensus\<close> returns no
  verdict: it raises \<^verbatim>\<open>IndexError\<close>.
\<close>

theorem calculate_consensus_empty_IndexError:
  "calculate_consensus [] = Inl IndexError"
  by (simp add: calculate_consensus_def Counter_def most_common_1_def)

text \<open>
  Claim C4. The agreement ratio is the plurality count, a slash, and the number of
  votes in the list, both in decimal. For the votes X, X, Y, X, X the result is X with
  ratio 4/5 and the green flag.
\<close>

theorem calculate_consensus_ratio:
  assumes "votes \<noteq> []"
  shows "(\<exists>v f. calculate_consensus votes =
              Inr (v, str_of_nat (count_list votes v) @ ''/'' @ str_of_nat (length votes), f) \<and>
            count_list votes v = Max (count_list votes ` set votes)) \<and>
         calculate_consensus [''X'', ''X'', ''Y'', ''X'', ''X''] = Inr (''X'', ''4/5'', green_flag)"
proof
  from calculate_consensus_nonempty [OF assms] obtain v where v:
    "calculate_consensus votes =
       Inr (v, str_of_nat (count_list votes v) @ ''/'' @ str_of_nat (length votes),
            if count_list votes v \<ge> 4 then green_flag
            else if count_list votes v = 3 then yellow_flag else red_flag)"
    "count_list votes v = Max (count_list votes ` set votes)"
    by blast
  then show "\<exists>v f. calculate_consensus votes =
              Inr (v, str_of_nat (count_list votes v) @ ''/'' @ str_of_nat (length votes), f) \<and>
            count_list votes v = Max (count_list votes ` set votes)"
    by (intro exI conjI)
  show "calculate_consensus [''X'', ''X'', ''Y'', ''X'', ''X''] = Inr (''X'', ''4/5'', green_flag)"
    by code_simp
qed

text \<open>
  The theorem at three votes, where the denominator is 3 and not the panel size 5.
\<close>

theorem calculate_consensus_ratio_witness:
  "[''U1'', ''U2'', ''U1''] \<noteq> [] \<and>
   (\<exists>v f. calculate_consensus [''U1'', ''U2'', ''U1''] =
      Inr (v, str_of_nat (count_list [''U1'', ''U2'', ''U1''] v) @ ''/''
              @ str_of_nat (length [''U1'', ''U2'', ''U1'']), f) \<and>
      count_list [''U1'', ''U2'', ''U1''] v
        = Max (count_list [''U1'', ''U2'', ''U1''] ` set [''U1'', ''U2'', ''U1''])) \<and>
   calculate_consensus [''U1'', ''U2'', ''U1''] = Inr (''U1'', ''2/3'', red_flag)"
proof -
  have ne: "[''U1'', ''U2'', ''U1''] \<noteq> []" by simp
  have ev: "calculate_consensus [''U1'', ''U2'', ''U1''] = Inr (''U1'', ''2/3'', red_flag)"
    by code_simp
  from calculate_consensus_ratio [OF ne]
  have "\<exists>v f. calculate_consensus [''U1'', ''U2'', ''U1''] =
      Inr (v, str_of_nat (count_list [''U1'', ''U2'', ''U1''] v) @ ''/''
              @ str_of_nat (length [''U1'', ''U2'', ''U1'']), f) \<and>
      count_list [''U1'', ''U2'', ''U1''] v
        = Max (count_list [''U1'', ''U2'', ''U1''] ` set [''U1'', ''U2'', ''U1''])"
    by (rule conjunct1)
  then show ?thesis by (rule conjI [OF ne conjI [OF _ ev]])
qed

subsection \<open>Merging proposals\<close>

text \<open>
  The two loops build the counter of the normalised proposals of all sources, taken in
  the order of the dictionary. Here and below \<open>lower\<close> and \<open>strip\<close> are arbitrary.
\<close>

lemma count_categories_eq:
  "count_categories lower strip c cats =
     foldl counter_incr c (map (\<lambda>cat. strip (lower cat)) cats)"
  by (simp add: count_categories_def foldl_map Let_def)

lemma category_counts_eq:
  "foldl (\<lambda>counts (model, categories). count_categories lower strip counts categories) c mp =
   foldl counter_incr c (map (\<lambda>cat. strip (lower cat)) (concat (map snd mp)))"
  by (induction mp arbitrary: c) (auto simp: count_categories_eq)

lemma merge_umbrella_proposals_Counter:
  "merge_umbrella_proposals lower strip mp t =
     sort (map fst (filter (\<lambda>(cat, n). t \<le> int n)
       (Counter (map (\<lambda>cat. strip (lower cat)) (concat (map snd mp))))))"
  by (simp add: merge_umbrella_proposals_def category_counts_eq Counter_def Let_def)

lemma merge_umbrella_proposals_set:
  "merge_umbrella_proposals lower strip mp t =
     sorted_list_of_set
       {s \<in> set (map (\<lambda>cat. strip (lower cat)) (concat (map snd mp))).
          t \<le> int (count_list (map (\<lambda>cat. strip (lower cat)) (concat (map snd mp))) s)}"
proof -
  let ?all = "map (\<lambda>cat. strip (lower cat)) (concat (map snd mp))"
  let ?u = "map fst (filter (\<lambda>(cat, n). t \<le> int n) (Counter ?all))"
  have "distinct (map fst (Counter ?all))"
    by (rule distinct_keys_Counter)
  then have d: "distinct ?u"
    by (rule distinct_map_filter)
  have "set ?u = {s \<in> set ?all. t \<le> int (count_list ?all s)}"
    by (rule Counter_filter_keys)
  moreover have "sorted_list_of_set (set ?u) = sort ?u"
    by (simp only: sorted_list_of_set_sort_remdups distinct_remdups_id [OF d])
  ultimately have "sorted_list_of_set {s \<in> set ?all. t \<le> int (count_list ?all s)} = sort ?u"
    by (simp only:)
  then show ?thesis
    by (simp only: merge_umbrella_proposals_Counter)
qed

lemma count_list_map_concat:
  "count_list (map f (concat (map snd mp))) s =
     (\<Sum>(m, cats) \<leftarrow> mp. length (filter (\<lambda>c. f c = s) cats))"
proof (induction mp)
  case Nil
  show ?case by simp
next
  case (Cons a mp)
  have "count_list (map f cats) s = length (filter (\<lambda>c. f c = s) cats)" for cats
    by (induction cats) auto
  with Cons show ?case
    by (cases a) (simp add: count_list_append)
qed

text \<open>
  The result depends on the two methods only through the normal forms of the
  proposals that occur in the input.
\<close>

lemma merge_umbrella_proposals_cong:
  assumes "\<And>c. c \<in> set (concat (map snd mp)) \<Longrightarrow> strip (lower c) = strip' (lower' c)"
  shows "merge_umbrella_proposals lower strip mp t = merge_umbrella_proposals lower' strip' mp t"
proof -
  have "map (\<lambda>cat. strip (lower cat)) (concat (map snd mp)) =
        map (\<lambda>cat. strip' (lower' cat)) (concat (map snd mp))"
    by (rule map_cong [OF refl]) (rule assms)
  then show ?thesis
    by (simp only: merge_umbrella_proposals_set)
qed

lemma merge_umbrella_proposals_example:
  assumes "\<forall>s. isascii s \<longrightarrow> lower s = ascii_lower s \<and> strip s = ascii_strip s"
  shows "merge_umbrella_proposals lower strip
           [(''a'', [''Foo'']), (''b'', [''foo '']), (''c'', [''FOO'']), (''d'', [''bar''])] 3
         = [''foo'']"
proof -
  let ?mp = "[(''a'', [''Foo'']), (''b'', [''foo '']), (''c'', [''FOO'']), (''d'', [''bar''])]"
  have norm: "strip (lower c) = ascii_strip (ascii_lower c)"
    if "isascii c" "isascii (ascii_lower c)" for c
    using assms that by simp
  have "isascii ''Foo''" "isascii ''foo ''" "isascii ''FOO''" "isascii ''bar''"
    "isascii (ascii_lower ''Foo'')" "isascii (ascii_lower ''foo '')"
    "isascii (ascii_lower ''FOO'')" "isascii (ascii_lower ''bar'')"
    by code_simp+
  then have "strip (lower c) = ascii_strip (ascii_lower c)"
    if "c \<in> set (concat (map snd ?mp))" for c
    using that norm by auto
  then have "merge_umbrella_proposals lower strip ?mp 3 =
             merge_umbrella_proposals ascii_lower ascii_strip ?mp 3"
    by (rule merge_umbrella_proposals_cong)
  also have "\<dots> = [''foo'']"
    by code_simp
  finally show ?thesis .
qed

text \<open>
  A proposal with a character outside ASCII: the letter E with acute accent is the
  bytes C3 89 in capital and C3 A9 in small form. For every \<open>lower\<close> that maps the first
  to the second, as \<^verbatim>\<open>str.lower\<close> does, the two spellings are counted together.
\<close>

lemma merge_umbrella_proposals_accented:
  assumes "lower ([CHR 0xC3, CHR 0x89] @ ''cole'') = [CHR 0xC3, CHR 0xA9] @ ''cole''"
    and "lower ([CHR 0xC3, CHR 0xA9] @ ''cole'') = [CHR 0xC3, CHR 0xA9] @ ''cole''"
    and "strip ([CHR 0xC3, CHR 0xA9] @ ''cole'') = [CHR 0xC3, CHR 0xA9] @ ''cole''"
  shows "merge_umbrella_proposals lower strip
           [(''a'', [[CHR 0xC3, CHR 0x89] @ ''cole'']), (''b'', [[CHR 0xC3, CHR 0xA9] @ ''cole''])] 2
         = [[CHR 0xC3, CHR 0xA9] @ ''cole'']"
  using assms
  by (simp add: merge_umbrella_proposals_def count_categories_def)

text \<open>
  Claim C5. For every mapping and every threshold, and whatever the two methods of
  the runtime do, \<^const>\<open>merge_umbrella_proposals\<close> returns the sorted list of the
  normalised proposals whose number of occurrences, summed over the lists of all
  sources and counting repetitions within one list, reaches the threshold. The order
  on \<^typ>\<open>string\<close> is lexicographic with characters compared by code. The example of
  the specification is made of ASCII strings; with methods that act on ASCII strings
  as those of Python do, it evaluates to the single string foo.
\<close>

theorem merge_umbrella_proposals_threshold:
  "merge_umbrella_proposals lower strip mp t =
     sorted_list_of_set
       {s. (\<exists>(m, cats) \<in> set mp. \<exists>c \<in> set cats. s = strip (lower c)) \<and>
           t \<le> int (\<Sum>(m, cats) \<leftarrow> mp. length (filter (\<lambda>c. strip (lower c) = s) cats))} \<and>
   ((\<forall>s. isascii s \<longrightarrow> lower s = ascii_lower s \<and> strip s = ascii_strip s) \<longrightarrow>
    merge_umbrella_proposals lower strip
      [(''a'', [''Foo'']), (''b'', [''foo '']), (''c'', [''FOO'']), (''d'', [''bar''])] 3
      = [''foo''])"
proof (intro conjI impI)
  have "{s \<in> set (map (\<lambda>cat. strip (lower cat)) (concat (map snd mp))).
          t \<le> int (count_list (map (\<lambda>cat. strip (lower cat)) (concat (map snd mp))) s)} =
        {s. (\<exists>(m, cats) \<in> set mp. \<exists>c \<in> set cats. s = strip (lower c)) \<and>
           t \<le> int (\<Sum>(m, cats) \<leftarrow> mp. length (filter (\<lambda>c. strip (lower c) = s) cats))}"
    unfolding count_list_map_concat
  proof (intro Collect_cong conj_cong refl)
    fix s
    show "s \<in> set (map (\<lambda>cat. strip (lower cat)) (concat (map snd mp))) \<longleftrightarrow>
          (\<exists>(m, cats) \<in> set mp. \<exists>c \<in> set cats. s = strip (lower c))"
      by (induction mp) auto
  qed
  then show "merge_umbrella_proposals lower strip mp t =
     sorted_list_of_set
       {s. (\<exists>(m, cats) \<in> set mp. \<exists>c \<in> set cats. s = strip (lower c)) \<and>
           t \<le> int (\<Sum>(m, cats) \<leftarrow> mp. length (filter (\<lambda>c. strip (lower c) = s) cats))}"
    by (simp only: merge_umbrella_proposals_set)
next
  assume "\<forall>s. isascii s \<longrightarrow> lower s = ascii_lower s \<and> strip s = ascii_strip s"
  then show "merge_umbrella_proposals lower strip
      [(''a'', [''Foo'']), (''b'', [''foo '']), (''c'', [''FOO'']), (''d'', [''bar''])] 3
      = [''foo'']"
    by (rule merge_umbrella_proposals_example)
qed

text \<open>
  The theorem with \<open>ascii_lower\<close> and \<open>ascii_strip\<close> in place of the two methods: the
  example of the specification, and one source that proposes the same category twice,
  which with threshold 2 is kept.
\<close>

theorem merge_umbrella_proposals_threshold_witness:
  "merge_umbrella_proposals ascii_lower ascii_strip
     [(''a'', [''Foo'']), (''b'', [''foo '']), (''c'', [''FOO'']), (''d'', [''bar''])] 3
     = [''foo''] \<and>
   merge_umbrella_proposals ascii_lower ascii_strip
     [(''a'', [''Liver'', ''liver '', ''Renal''])] 2 = [''liver''] \<and>
   sorted_list_of_set
     {s. (\<exists>(m, cats) \<in> set [(''a'', [''Liver'', ''liver '', ''Renal''])].
            \<exists>c \<in> set cats. s = ascii_strip (ascii_lower c)) \<and>
         2 \<le> int (\<Sum>(m, cats) \<leftarrow> [(''a'', [''Liver'', ''liver '', ''Renal''])].
                     length (filter (\<lambda>c. ascii_strip (ascii_lower c) = s) cats))} = [''liver'']"
proof -
  have hyp: "\<forall>s. isascii s \<longrightarrow> ascii_lower s = ascii_lower s \<and> ascii_strip s = ascii_strip s"
    by simp
  have ex: "merge_umbrella_proposals ascii_lower ascii_strip
     [(''a'', [''Foo'']), (''b'', [''foo '']), (''c'', [''FOO'']), (''d'', [''bar''])] 3
     = [''foo'']"
    using merge_umbrella_proposals_threshold [of ascii_lower ascii_strip] hyp by blast
  have ev: "merge_umbrella_proposals ascii_lower ascii_strip
     [(''a'', [''Liver'', ''liver '', ''Renal''])] 2 = [''liver'']"
    by code_simp
  from merge_umbrella_proposals_threshold
    [of ascii_lower ascii_strip "[(''a'', [''Liver'', ''liver '', ''Renal''])]" 2]
  have "merge_umbrella_proposals ascii_lower ascii_strip
     [(''a'', [''Liver'', ''liver '', ''Renal''])] 2 =
     sorted_list_of_set
     {s. (\<exists>(m, cats) \<in> set [(''a'', [''Liver'', ''liver '', ''Renal''])].
            \<exists>c \<in> set cats. s = ascii_strip (ascii_lower c)) \<and>
         2 \<le> int (\<Sum>(m, cats) \<leftarrow> [(''a'', [''Liver'', ''liver '', ''Renal''])].
                     length (filter (\<lambda>c. ascii_strip (ascii_lower c) = s) cats))}"
    by (rule conjunct1)
  with ev have "sorted_list_of_set
     {s. (\<exists>(m, cats) \<in> set [(''a'', [''Liver'', ''liver '', ''Renal''])].
            \<exists>c \<in> set cats. s = ascii_strip (ascii_lower c)) \<and>
         2 \<le> int (\<Sum>(m, cats) \<leftarrow> [(''a'', [''Liver'', ''liver '', ''Renal''])].
                     length (filter (\<lambda>c. ascii_strip (ascii_lower c) = s) cats))} = [''liver'']"
    by (simp only:)
  then show ?thesis
    by (rule conjI [OF ex conjI [OF ev]])
qed

lemma merge_umbrella_proposals_mset:
  assumes "mset mp = mset mp'"
  shows "merge_umbrella_proposals lower strip mp t = merge_umbrella_proposals lower strip mp' t"
proof -
  let ?all = "\<lambda>mp. map (\<lambda>cat. strip (lower cat)) (concat (map snd mp))"
  have "mset (concat (map snd mp)) = mset (concat (map snd mp'))"
  proof -
    have "mset (concat (map snd xs)) = (\<Sum>x \<in># mset xs. mset (snd x))"
      for xs :: "(string \<times> string list) list"
      by (induction xs) auto
    with assms show ?thesis by simp
  qed
  then have ms: "mset (?all mp) = mset (?all mp')"
    by (simp only: mset_map)
  then have "set (?all mp) = set (?all mp')"
    by (rule mset_eq_setD)
  moreover have "count_list (?all mp) s = count_list (?all mp') s" for s
    using arg_cong [OF ms, of "\<lambda>M. count M s"] by (simp only: count_mset)
  ultimately show ?thesis
    by (simp only: merge_umbrella_proposals_set)
qed

text \<open>
  Claim C9. Two dictionaries with the same entries, enumerated in different orders,
  give the same list, whatever the two methods of the runtime do.
\<close>

theorem merge_umbrella_proposals_order_independent:
  assumes "distinct (map fst mp)" "distinct (map fst mp')" "map_of mp = map_of mp'"
  shows "merge_umbrella_proposals lower strip mp t = merge_umbrella_proposals lower strip mp' t"
proof -
  from assms have "set mp = set mp'"
    by (simp add: map_of_inject_set)
  moreover from assms(1,2) have "distinct mp" "distinct mp'"
    by (simp_all add: distinct_map)
  ultimately have "mset mp = mset mp'"
    by (simp add: set_eq_iff_mset_eq_distinct)
  then show ?thesis by (rule merge_umbrella_proposals_mset)
qed

text \<open>
  The theorem at a dictionary of two sources and the same dictionary with its entries
  swapped, with \<open>ascii_lower\<close> and \<open>ascii_strip\<close> in place of the two methods.
\<close>

theorem merge_umbrella_proposals_order_independent_witness:
  "distinct (map fst [(''a'', [''Foo'', ''bar'']), (''b'', [''foo''])]) \<and>
   distinct (map fst [(''b'', [''foo'']), (''a'', [''Foo'', ''bar''])]) \<and>
   map_of [(''a'', [''Foo'', ''bar'']), (''b'', [''foo''])]
     = map_of [(''b'', [''foo'']), (''a'', [''Foo'', ''bar''])] \<and>
   merge_umbrella_proposals ascii_lower ascii_strip
     [(''a'', [''Foo'', ''bar'']), (''b'', [''foo''])] 2 =
   merge_umbrella_proposals ascii_lower ascii_strip
     [(''b'', [''foo'']), (''a'', [''Foo'', ''bar''])] 2 \<and>
   merge_umbrella_proposals ascii_lower ascii_strip
     [(''b'', [''foo'']), (''a'', [''Foo'', ''bar''])] 2 = [''foo'']"
proof -
  have d1: "distinct (map fst [(''a'', [''Foo'', ''bar'']), (''b'', [''foo''])])" by simp
  have d2: "distinct (map fst [(''b'', [''foo'']), (''a'', [''Foo'', ''bar''])])" by simp
  have m: "map_of [(''a'', [''Foo'', ''bar'']), (''b'', [''foo''])]
     = map_of [(''b'', [''foo'']), (''a'', [''Foo'', ''bar''])]"
    by (auto simp: fun_eq_iff)
  have ev: "merge_umbrella_proposals ascii_lower ascii_strip
      [(''b'', [''foo'']), (''a'', [''Foo'', ''bar''])] 2 = [''foo'']"
    by code_simp
  show ?thesis
    by (rule conjI [OF d1 conjI [OF d2 conjI [OF m conjI [OF
          merge_umbrella_proposals_order_independent [OF d1 d2 m] ev]]]])
qed

subsection \<open>The phase aggregators\<close>

lemma all_traits_fold:
  "fold (\<lambda>(model, results) all. all \<union> set (map fst results)) mr A =
     A \<union> (\<Union>(model, results) \<in> set mr. fst ` set results)"
  by (induction mr arbitrary: A) auto

lemma all_traits_eq: "all_traits mr = (\<Union>(model, results) \<in> set mr. fst ` set results)"
  unfolding all_traits_def all_traits_fold by simp

lemma finite_all_traits: "finite (all_traits mr)"
  by (auto simp: all_traits_eq)

lemma filter_sorted_list_of_set:
  assumes "finite A"
  shows "filter P (sorted_list_of_set A) = sorted_list_of_set {x \<in> A. P x}"
proof (rule sorted_distinct_set_unique)
  show "sorted (filter P (sorted_list_of_set A))"
    by (simp add: sorted_filter [where f = "\<lambda>x. x", simplified])
  show "set (filter P (sorted_list_of_set A)) = set (sorted_list_of_set {x \<in> A. P x})"
    using assms by auto
qed (use assms in auto)

lemma foldl_cast_vote:
  "foldl (cast_vote mr t) (vs, mv) ms =
     (vs @ List.map_filter (\<lambda>m. lookup_vote mr m t) ms,
      mv @ map (\<lambda>m. (m, lookup_vote mr m t)) ms)"
  by (induction ms arbitrary: vs mv) (auto simp: cast_vote_def split: option.splits)

lemma collect_votes_eq:
  "collect_votes mr t =
     (List.map_filter (\<lambda>m. lookup_vote mr m t) MODELS, map (\<lambda>m. (m, lookup_vote mr m t)) MODELS)"
  by (simp add: collect_votes_def foldl_cast_vote)

lemma map_filter_eq_Nil_iff: "List.map_filter f xs = [] \<longleftrightarrow> (\<forall>x \<in> set xs. f x = None)"
  by (induction xs) (auto split: option.splits)

lemma lookup_vote_in_all_traits:
  assumes "lookup_vote mr m t \<noteq> None"
  shows "t \<in> all_traits mr"
proof -
  from assms obtain results v where "map_of mr m = Some results" "map_of results t = Some v"
    by (auto simp: lookup_vote_def split: option.splits)
  then have "(m, results) \<in> set mr" "t \<in> fst ` set results"
    by (auto dest!: map_of_SomeD intro: rev_image_eqI)
  then show ?thesis
    unfolding all_traits_eq by blast
qed

lemma lookup_vote_filter_panel:
  assumes "m \<in> set MODELS"
  shows "lookup_vote (filter (\<lambda>(model, results). model \<in> set MODELS) mr) m t = lookup_vote mr m t"
proof -
  have "map_of (filter (\<lambda>(model, results). model \<in> set MODELS) mr) m = map_of mr m"
    using assms by (induction mr) auto
  then show ?thesis by (simp add: lookup_vote_def)
qed

lemma map_filter_cong_set:
  "(\<And>x. x \<in> set xs \<Longrightarrow> f x = g x) \<Longrightarrow> List.map_filter f xs = List.map_filter g xs"
  by (induction xs) (auto split: option.splits)

lemma collect_votes_filter_panel:
  "collect_votes (filter (\<lambda>(model, results). model \<in> set MODELS) mr) t = collect_votes mr t"
proof -
  let ?mr = "filter (\<lambda>(model, results). model \<in> set MODELS) mr"
  have "List.map_filter (\<lambda>m. lookup_vote ?mr m t) MODELS =
        List.map_filter (\<lambda>m. lookup_vote mr m t) MODELS"
    by (rule map_filter_cong_set) (rule lookup_vote_filter_panel)
  moreover have "map (\<lambda>m. (m, lookup_vote ?mr m t)) MODELS =
        map (\<lambda>m. (m, lookup_vote mr m t)) MODELS"
    by (rule map_cong [OF refl]) (simp add: lookup_vote_filter_panel)
  ultimately show ?thesis
    by (simp only: collect_votes_eq)
qed

lemma aggregate_rows_filter_panel:
  "aggregate_rows ic lc (filter (\<lambda>(model, results). model \<in> set MODELS) mr) ts =
   aggregate_rows ic lc mr ts"
  by (induction ts) (simp_all only: aggregate_rows.simps collect_votes_filter_panel)

lemma aggregate_rows_skip:
  assumes "\<And>t. P t \<longleftrightarrow> List.map_filter (\<lambda>m. lookup_vote mr m t) MODELS \<noteq> []"
  shows "aggregate_rows ic lc mr ts = aggregate_rows ic lc mr (filter P ts)"
proof (induction ts)
  case Nil
  show ?case by simp
next
  case (Cons t ts)
  show ?case
  proof (cases "P t")
    case True
    then show ?thesis
      using assms [of t]
      by (simp add: collect_votes_eq Cons.IH [symmetric] split: sum.splits prod.splits)
  next
    case False
    then show ?thesis
      using assms [of t] by (simp add: collect_votes_eq Cons.IH [symmetric])
  qed
qed

lemma aggregate_rows_skip_unvoted:
  "aggregate_rows ic lc mr ts =
   aggregate_rows ic lc mr (filter (\<lambda>t. \<exists>m \<in> set MODELS. lookup_vote mr m t \<noteq> None) ts)"
  by (rule aggregate_rows_skip) (auto simp: map_filter_eq_Nil_iff)

lemma aggregate_rows_Cons_voted:
  assumes "calculate_consensus (List.map_filter (\<lambda>m. lookup_vote mr m t) MODELS) = Inr (c, a, f)"
    and "List.map_filter (\<lambda>m. lookup_vote mr m t) MODELS \<noteq> []"
    and "aggregate_rows ic lc mr ts = Inr rs"
  shows "aggregate_rows ic lc mr (t # ts) =
           Inr (([(ic, Some t), (lc, Some c), (''agreement'', Some a), (''flag'', Some f)]
                 @ map (\<lambda>m. (m, lookup_vote mr m t)) MODELS) # rs)"
  using assms by (simp add: collect_votes_eq)

lemma aggregate_rows_voted:
  assumes "\<forall>t \<in> set ts. \<exists>m \<in> set MODELS. lookup_vote mr m t \<noteq> None"
  shows "\<exists>rs. aggregate_rows ic lc mr ts = Inr rs \<and>
           list_all2 (\<lambda>r t. \<exists>c a f. r = [(ic, Some t), (lc, Some c), (''agreement'', Some a),
                                          (''flag'', Some f)]
                                         @ map (\<lambda>m. (m, lookup_vote mr m t)) MODELS) rs ts"
    (is "\<exists>rs. _ = Inr rs \<and> list_all2 ?R rs ts")
  using assms
proof (induction ts)
  case Nil
  show ?case by simp
next
  case (Cons t ts)
  let ?votes = "List.map_filter (\<lambda>m. lookup_vote mr m t) MODELS"
  from Cons.prems have ne: "?votes \<noteq> []"
    by (simp add: map_filter_eq_Nil_iff)
  from calculate_consensus_returns [OF ne] obtain c a f where
    cc: "calculate_consensus ?votes = Inr (c, a, f)"
    by (elim exE)
  from Cons.prems have "\<forall>t \<in> set ts. \<exists>m \<in> set MODELS. lookup_vote mr m t \<noteq> None"
    by simp
  from Cons.IH [OF this] obtain rs where rs: "aggregate_rows ic lc mr ts = Inr rs"
    "list_all2 ?R rs ts"
    by (elim exE conjE)
  let ?r = "[(ic, Some t), (lc, Some c), (''agreement'', Some a), (''flag'', Some f)]
                 @ map (\<lambda>m. (m, lookup_vote mr m t)) MODELS"
  have "aggregate_rows ic lc mr (t # ts) = Inr (?r # rs)"
    by (rule aggregate_rows_Cons_voted [OF cc ne rs(1)])
  moreover have "?R ?r t" by (intro exI) (rule refl)
  then have "list_all2 ?R (?r # rs) (t # ts)"
    using rs(2) by (rule list_all2_Cons [THEN iffD2, OF conjI])
  ultimately show ?case by (intro exI conjI)
qed

lemma rows_DataFrame: "rows (DataFrame rs) = rs"
  by (simp add: DataFrame_def)

lemma list_all2_map_eq:
  assumes "list_all2 R xs ys" "\<And>x y. R x y \<Longrightarrow> f x = g y"
  shows "map f xs = map g ys"
  using assms by (induction rule: list_all2_induct) auto

lemma list_all2_setD1:
  assumes "list_all2 R xs ys" "x \<in> set xs"
  shows "\<exists>y \<in> set ys. R x y"
  using assms by (induction rule: list_all2_induct) auto

lemma map_of_row_model:
  assumes "m \<in> set MODELS" "ic \<notin> set MODELS" "lc \<notin> set MODELS"
  shows "map_of ([(ic, Some t), (lc, c), (''agreement'', a), (''flag'', f)]
                 @ map (\<lambda>m. (m, g m)) MODELS) m = Some (g m)"
proof -
  have "''agreement'' \<notin> set MODELS" "''flag'' \<notin> set MODELS"
    by (simp_all add: MODELS_def)
  with assms have "m \<noteq> ic" "m \<noteq> lc" "m \<noteq> ''agreement''" "m \<noteq> ''flag''"
    by blast+
  moreover have "map_of (map (\<lambda>m. (m, g m)) MODELS) m = Some (g m)"
    using assms(1) by (simp add: map_of_map_restrict)
  ultimately show ?thesis by simp
qed

lemma aggregate_results_rows:
  "\<exists>df. aggregate_results ic lc mr = Inr df \<and>
     list_all2 (\<lambda>r t. \<exists>c a f. r = [(ic, Some t), (lc, Some c), (''agreement'', Some a),
                                    (''flag'', Some f)]
                                   @ map (\<lambda>m. (m, lookup_vote mr m t)) MODELS)
       (rows df)
       (sorted_list_of_set {t \<in> all_traits mr. \<exists>m \<in> set MODELS. lookup_vote mr m t \<noteq> None})"
    (is "\<exists>df. _ = Inr df \<and> list_all2 ?R (rows df) ?ts")
proof -
  have ts: "filter (\<lambda>t. \<exists>m \<in> set MODELS. lookup_vote mr m t \<noteq> None)
              (sorted_list_of_set (all_traits mr)) = ?ts"
    by (rule filter_sorted_list_of_set) (rule finite_all_traits)
  have "finite {t \<in> all_traits mr. \<exists>m \<in> set MODELS. lookup_vote mr m t \<noteq> None}"
    using finite_all_traits [of mr] by simp
  then have "\<forall>t \<in> set ?ts. \<exists>m \<in> set MODELS. lookup_vote mr m t \<noteq> None"
    by simp
  from aggregate_rows_voted [OF this, of ic lc] obtain rs where
    rs: "aggregate_rows ic lc mr ?ts = Inr rs" "list_all2 ?R rs ?ts"
    by (elim exE conjE)
  have "aggregate_rows ic lc mr (sorted_list_of_set (all_traits mr)) = Inr rs"
    using aggregate_rows_skip_unvoted [of ic lc mr "sorted_list_of_set (all_traits mr)"]
    by (simp only: ts rs(1))
  then have "aggregate_results ic lc mr = Inr (DataFrame rs)"
    by (simp add: aggregate_results_def)
  moreover have "list_all2 ?R (rows (DataFrame rs)) ?ts"
    using rs(2) by (simp only: rows_DataFrame)
  ultimately show ?thesis by (intro exI conjI)
qed

lemma aggregate_results_spec:
  assumes "ic \<notin> set MODELS" "lc \<notin> set MODELS"
  shows "\<exists>df. aggregate_results ic lc mr = Inr df \<and>
     map (\<lambda>r. map_of r ic) (rows df) =
       map (\<lambda>t. Some (Some t))
         (sorted_list_of_set {t \<in> all_traits mr. \<exists>m \<in> set MODELS. lookup_vote mr m t \<noteq> None}) \<and>
     length (rows df) =
       card (all_traits mr) - card {t \<in> all_traits mr. \<forall>m \<in> set MODELS. lookup_vote mr m t = None} \<and>
     (\<forall>r \<in> set (rows df). \<forall>t. map_of r ic = Some (Some t) \<longrightarrow>
        (\<forall>m \<in> set MODELS. map_of r m = Some (lookup_vote mr m t)))"
proof -
  let ?R = "\<lambda>r t. \<exists>c a f. r = [(ic, Some t), (lc, Some c), (''agreement'', Some a),
                                    (''flag'', Some f)]
                                   @ map (\<lambda>m. (m, lookup_vote mr m t)) MODELS"
  let ?V = "{t \<in> all_traits mr. \<exists>m \<in> set MODELS. lookup_vote mr m t \<noteq> None}"
  let ?U = "{t \<in> all_traits mr. \<forall>m \<in> set MODELS. lookup_vote mr m t = None}"
  from aggregate_results_rows [of ic lc mr] obtain df where
    df: "aggregate_results ic lc mr = Inr df" "list_all2 ?R (rows df) (sorted_list_of_set ?V)"
    by (elim exE conjE)
  have key: "map_of r ic = Some (Some t)" if "?R r t" for r t
    using that by auto
  have 1: "map (\<lambda>r. map_of r ic) (rows df) = map (\<lambda>t. Some (Some t)) (sorted_list_of_set ?V)"
    using df(2) key by (rule list_all2_map_eq)
  have fin: "finite (all_traits mr)" by (rule finite_all_traits)
  have "length (rows df) = length (sorted_list_of_set ?V)"
    using df(2) by (rule list_all2_lengthD)
  also have "\<dots> = card ?V"
    by simp
  also have "?V = all_traits mr - ?U"
    by auto
  also have "card (all_traits mr - ?U) = card (all_traits mr) - card ?U"
    using fin by (intro card_Diff_subset) auto
  finally have 2: "length (rows df) = card (all_traits mr) - card ?U" .
  have 3: "map_of r m = Some (lookup_vote mr m t)"
    if "r \<in> set (rows df)" "map_of r ic = Some (Some t)" "m \<in> set MODELS" for r t m
  proof -
    from list_all2_setD1 [OF df(2) that(1)] obtain t' where "?R r t'"
      by blast
    then obtain c a f where r: "r = [(ic, Some t'), (lc, Some c), (''agreement'', Some a),
                                    (''flag'', Some f)]
                                   @ map (\<lambda>m. (m, lookup_vote mr m t')) MODELS"
      by blast
    with that(2) have "t' = t" by simp
    have "map_of r m = Some (lookup_vote mr m t')"
      unfolding r by (rule map_of_row_model [OF that(3) assms])
    then show ?thesis
      by (simp only: \<open>t' = t\<close>)
  qed
  show ?thesis
    using df(1) 1 2 3 by blast
qed

lemma phase_cases:
  assumes "(agg, item_col) = (aggregate_phase2_results, ''trait'') \<or>
           (agg, item_col) = (aggregate_phase3_results, ''umbrella'')"
  obtains label_col where "agg = aggregate_results item_col label_col"
    "item_col \<notin> set MODELS" "label_col \<notin> set MODELS"
proof -
  from assms consider "agg = aggregate_results ''trait'' ''umbrella''" "item_col = ''trait''"
    | "agg = aggregate_results ''umbrella'' ''final_category''" "item_col = ''umbrella''"
    by (auto simp: fun_eq_iff aggregate_phase2_results_def aggregate_phase3_results_def)
  then show thesis
  proof cases
    case 1
    show thesis
      by (rule that [of "''umbrella''"]) (simp_all add: 1 MODELS_def)
  next
    case 2
    show thesis
      by (rule that [of "''final_category''"]) (simp_all add: 2 MODELS_def)
  qed
qed

lemma voted_set_eq:
  "{t \<in> all_traits mr. \<exists>m \<in> set MODELS. lookup_vote mr m t \<noteq> None} =
   {t. \<exists>m \<in> set MODELS. lookup_vote mr m t \<noteq> None}"
  using lookup_vote_in_all_traits [of mr] by blast



text \<open>
  Claim C10. The set of items is the union of the keys of every source in the input,
  but votes are read from the panel sources only: the result is the result on the
  input without its non-panel sources, and an item that no panel source has a vote
  for has no row.
\<close>

theorem phase_aggregator_panel_only:
  assumes "(agg, item_col) = (aggregate_phase2_results, ''trait'') \<or>
           (agg, item_col) = (aggregate_phase3_results, ''umbrella'')"
  shows "all_traits mr = (\<Union>(model, results) \<in> set mr. fst ` set results) \<and>
         agg mr = agg (filter (\<lambda>(model, results). model \<in> set MODELS) mr) \<and>
         (\<forall>t. (\<forall>m \<in> set MODELS. lookup_vote mr m t = None) \<longrightarrow>
              (\<forall>df. agg mr = Inr df \<longrightarrow>
                 (\<forall>r \<in> set (rows df). map_of r item_col \<noteq> Some (Some t))))"
proof (intro conjI allI impI ballI)
  from assms obtain label_col where agg: "agg = aggregate_results item_col label_col"
    and cols: "item_col \<notin> set MODELS" "label_col \<notin> set MODELS"
    by (rule phase_cases)
  let ?panel = "filter (\<lambda>(model, results). model \<in> set MODELS) mr"
  let ?voted = "\<lambda>mr t. \<exists>m \<in> set MODELS. lookup_vote mr m t \<noteq> None"
  show "all_traits mr = (\<Union>(model, results) \<in> set mr. fst ` set results)"
    by (rule all_traits_eq)
  have rows_of: "aggregate_rows item_col label_col mr (sorted_list_of_set (all_traits mr')) =
      aggregate_rows item_col label_col mr
        (sorted_list_of_set {t \<in> all_traits mr'. ?voted mr t})" for mr'
    using aggregate_rows_skip_unvoted [of item_col label_col mr "sorted_list_of_set (all_traits mr')"]
    by (simp only: filter_sorted_list_of_set [OF finite_all_traits])
  have same: "?voted ?panel t \<longleftrightarrow> ?voted mr t" for t
    by (simp add: lookup_vote_filter_panel)
  have "{t \<in> all_traits ?panel. ?voted mr t} = {t. ?voted ?panel t}"
    using voted_set_eq [of ?panel] by (simp only: same)
  also have "\<dots> = {t \<in> all_traits mr. ?voted mr t}"
    using voted_set_eq [of mr] by (simp only: same)
  finally have "aggregate_rows item_col label_col ?panel (sorted_list_of_set (all_traits ?panel)) =
      aggregate_rows item_col label_col mr (sorted_list_of_set (all_traits mr))"
    by (simp only: aggregate_rows_filter_panel rows_of)
  then show "agg mr = agg ?panel"
    by (simp only: agg aggregate_results_def)
next
  fix t df r
  assume none: "\<forall>m \<in> set MODELS. lookup_vote mr m t = None"
    and df: "agg mr = Inr df" and r: "r \<in> set (rows df)"
  from assms obtain label_col where agg: "agg = aggregate_results item_col label_col"
    and cols: "item_col \<notin> set MODELS" "label_col \<notin> set MODELS"
    by (rule phase_cases)
  from aggregate_results_spec [OF cols, of mr] df
  have "map (\<lambda>r. map_of r item_col) (rows df) =
       map (\<lambda>t. Some (Some t))
         (sorted_list_of_set {t \<in> all_traits mr. \<exists>m \<in> set MODELS. lookup_vote mr m t \<noteq> None})"
    unfolding agg by auto
  then have "set (map (\<lambda>r. map_of r item_col) (rows df)) =
       set (map (\<lambda>t. Some (Some t))
         (sorted_list_of_set {t \<in> all_traits mr. \<exists>m \<in> set MODELS. lookup_vote mr m t \<noteq> None}))"
    by (rule arg_cong)
  moreover have "finite {t \<in> all_traits mr. \<exists>m \<in> set MODELS. lookup_vote mr m t \<noteq> None}"
    using finite_all_traits [of mr] by simp
  ultimately have "(\<lambda>r. map_of r item_col) ` set (rows df) =
       (\<lambda>t. Some (Some t)) ` {t \<in> all_traits mr. \<exists>m \<in> set MODELS. lookup_vote mr m t \<noteq> None}"
    by simp
  with r have "map_of r item_col \<in>
       (\<lambda>t. Some (Some t)) ` {t \<in> all_traits mr. \<exists>m \<in> set MODELS. lookup_vote mr m t \<noteq> None}"
    by blast
  with none show "map_of r item_col \<noteq> Some (Some t)"
    by auto
qed

text \<open>
  The theorem at one panel source and one source outside the panel: the item t3 is in
  the set of items and has no row, and the vote of the other source for t1 is not
  counted.
\<close>

theorem phase_aggregator_panel_only_witness:
  "''t3'' \<in> all_traits [(''claude'', [(''t1'', ''U1'')]),
                         (''other'', [(''t3'', ''U9''), (''t1'', ''U7'')])] \<and>
   aggregate_phase2_results
     [(''claude'', [(''t1'', ''U1'')]), (''other'', [(''t3'', ''U9''), (''t1'', ''U7'')])] =
   Inr \<lparr>columns = [''trait'', ''umbrella'', ''agreement'', ''flag'',
                   ''claude'', ''gpt5'', ''gemini'', ''deepseek'', ''grok''],
        rows = [[(''trait'', Some ''t1''), (''umbrella'', Some ''U1''),
                 (''agreement'', Some ''1/1''), (''flag'', Some red_flag),
                 (''claude'', Some ''U1''), (''gpt5'', None), (''gemini'', None),
                 (''deepseek'', None), (''grok'', None)]]\<rparr> \<and>
   aggregate_phase2_results
     (filter (\<lambda>(model, results). model \<in> set MODELS)
        [(''claude'', [(''t1'', ''U1'')]), (''other'', [(''t3'', ''U9''), (''t1'', ''U7'')])]) =
   aggregate_phase2_results
     [(''claude'', [(''t1'', ''U1'')]), (''other'', [(''t3'', ''U9''), (''t1'', ''U7'')])]"
    (is "?t3 \<and> ?agg = Inr ?df \<and> ?agg' = ?agg")
proof -
  have ev: "?agg = Inr ?df"
    by code_simp
  have t3: ?t3
    by (simp add: all_traits_def)
  have hyp: "(aggregate_phase2_results, ''trait'') = (aggregate_phase2_results, ''trait'') \<or>
             (aggregate_phase2_results, ''trait'') = (aggregate_phase3_results, ''umbrella'')"
    by simp
  from phase_aggregator_panel_only [OF hyp] have "?agg = ?agg'"
    by blast
  then have "?agg' = ?agg" by (rule sym)
  then show ?thesis by (rule conjI [OF t3 conjI [OF ev]])
qed

subsection \<open>Rounding\<close>

text \<open>
  Rounding to a multiple of the unit in the last place moves a number of magnitude
  below \<open>2 powi k\<close> by at most \<open>2 powi (k - 54)\<close>.
\<close>

lemma round_half_even_error: "\<bar>of_int (round_half_even x) - x\<bar> \<le> 1 / 2"
proof -
  have "of_int \<lfloor>x\<rfloor> \<le> x" "x < of_int \<lfloor>x\<rfloor> + 1"
    by linarith+
  then show ?thesis
    by (auto simp: round_half_even_def Let_def)
qed

lemma ilog2_lower:
  assumes "0 < x"
  shows "2 powi (ilog2 x) \<le> x"
proof -
  obtain p q where pq: "quotient_of x = (p, q)"
    by (cases "quotient_of x")
  then have x: "x = of_int p / of_int q" and q: "0 < q"
    by (auto dest: quotient_of_div quotient_of_denom_pos)
  with assms have p: "0 < p"
    by (simp add: zero_less_divide_iff)
  define d where "d = bitlen p - bitlen q"
  show ?thesis
  proof (cases "2 powi d \<le> x")
    case True
    then show ?thesis by (simp add: ilog2_def pq d_def)
  next
    case False
    then have il: "ilog2 x = d - 1" by (simp add: ilog2_def pq d_def)
    have bp: "1 \<le> bitlen p" and bq: "1 \<le> bitlen q"
      using p q by (auto simp: bitlen_alt_def)
    have "(2::int) ^ nat (bitlen p - 1) \<le> p" "q < 2 ^ nat (bitlen q)"
      using bitlen_bounds [OF p] bitlen_bounds [OF q] by auto
    then have lo: "(2::rat) ^ nat (bitlen p - 1) \<le> of_int p"
      and hi: "of_int q \<le> (2::rat) ^ nat (bitlen q)"
      by (metis of_int_le_iff of_int_numeral of_int_power, metis less_imp_le of_int_le_iff of_int_numeral of_int_power)
    have dd: "d - 1 = (bitlen p - 1) - bitlen q" by (simp add: d_def)
    have "2 powi (d - 1) = (2::rat) powi (bitlen p - 1) / 2 powi (bitlen q)"
      unfolding dd by (rule power_int_diff) simp
    also have "\<dots> = (2::rat) ^ nat (bitlen p - 1) / 2 ^ nat (bitlen q)"
      using bp bq by (simp add: power_int_def)
    also have "\<dots> \<le> of_int p / of_int q"
      using lo hi q p by (intro frac_le) auto
    also have "\<dots> = x" by (simp only: x)
    finally show ?thesis by (simp only: il)
  qed
qed

lemma ilog2_upper:
  assumes "0 < x"
  shows "x < 2 powi (ilog2 x + 1)"
proof -
  obtain p q where pq: "quotient_of x = (p, q)"
    by (cases "quotient_of x")
  then have x: "x = of_int p / of_int q" and q: "0 < q"
    by (auto dest: quotient_of_div quotient_of_denom_pos)
  with assms have p: "0 < p"
    by (simp add: zero_less_divide_iff)
  define d where "d = bitlen p - bitlen q"
  show ?thesis
  proof (cases "2 powi d \<le> x")
    case True
    then have il: "ilog2 x = d" by (simp add: ilog2_def pq d_def)
    have bp: "1 \<le> bitlen p" and bq: "1 \<le> bitlen q"
      using p q by (auto simp: bitlen_alt_def)
    have "p < 2 ^ nat (bitlen p)" "(2::int) ^ nat (bitlen q - 1) \<le> q"
      using bitlen_bounds [OF p] bitlen_bounds [OF q] by auto
    then have hi: "of_int p < (2::rat) ^ nat (bitlen p)"
      and lo: "(2::rat) ^ nat (bitlen q - 1) \<le> of_int q"
      by (metis of_int_less_iff of_int_numeral of_int_power,
          metis of_int_le_iff of_int_numeral of_int_power)
    have "x = of_int p / of_int q" by (rule x)
    also have "\<dots> < (2::rat) ^ nat (bitlen p) / 2 ^ nat (bitlen q - 1)"
      using hi lo q p by (intro frac_less) auto
    also have "\<dots> = (2::rat) powi (bitlen p) / 2 powi (bitlen q - 1)"
      using bp bq by (simp add: power_int_def)
    also have "\<dots> = 2 powi (bitlen p - (bitlen q - 1))"
      by (rule power_int_diff [symmetric]) simp
    also have "bitlen p - (bitlen q - 1) = d + 1"
      by (simp add: d_def)
    finally show ?thesis by (simp only: il)
  next
    case False
    then have il: "ilog2 x = d - 1" by (simp add: ilog2_def pq d_def)
    from False show ?thesis by (simp add: il)
  qed
qed

lemma ilog2_less:
  assumes "0 < x" "x < 2 powi k"
  shows "ilog2 x < k"
proof (rule ccontr)
  assume "\<not> ilog2 x < k"
  then have "k \<le> ilog2 x" by simp
  then have "(2::rat) powi k \<le> 2 powi (ilog2 x)"
    by (intro power_int_increasing) auto
  with ilog2_lower [OF assms(1)] assms(2) show False by simp
qed

lemma to_float_error:
  assumes "\<bar>x\<bar> < 2 powi k" "- 1021 \<le> k"
  shows "\<bar>to_float x - x\<bar> \<le> 2 powi (k - 54)"
proof (cases "x = 0")
  case True
  then show ?thesis by (simp add: to_float_def)
next
  case False
  define e where "e = max (ilog2 \<bar>x\<bar>) (- 1022)"
  define ulp :: rat where "ulp = 2 powi (e - 52)"
  have tf: "to_float x = of_int (round_half_even (x / ulp)) * ulp"
    using False by (simp add: to_float_def e_def ulp_def Let_def)
  have ulp_pos: "0 < ulp" by (simp add: ulp_def)
  from False assms(1) have "ilog2 \<bar>x\<bar> < k"
    by (intro ilog2_less) auto
  with assms(2) have "e - 52 \<le> k - 53" by (simp add: e_def)
  then have "ulp \<le> 2 powi (k - 53)"
    unfolding ulp_def by (intro power_int_increasing) auto
  also have "\<dots> = 2 * 2 powi (k - 54)"
    using power_int_add_1' [of "2::rat" "k - 54"] by (simp add: algebra_simps)
  finally have ulp_le: "ulp / 2 \<le> 2 powi (k - 54)" by simp
  have "to_float x - x = (of_int (round_half_even (x / ulp)) - x / ulp) * ulp"
    using ulp_pos by (simp add: tf algebra_simps)
  then have "\<bar>to_float x - x\<bar> = \<bar>of_int (round_half_even (x / ulp)) - x / ulp\<bar> * ulp"
    using ulp_pos by (simp add: abs_mult)
  also have "\<dots> \<le> 1 / 2 * ulp"
    using round_half_even_error [of "x / ulp"] ulp_pos by (intro mult_right_mono) auto
  finally show ?thesis using ulp_le by simp
qed

lemma small_powers:
  "(2::rat) powi (1 - 54) \<le> 1 / 1000000" "(2::rat) powi (7 - 54) \<le> 1 / 1000000"
  "(2::rat) powi 1 = 2" "(2::rat) powi 7 = 128"
  by (simp_all add: power_int_def power_divide)

lemma percentage_error:
  assumes "k \<le> n" "0 < n"
  obtains p where "percentage k n = Inr p" "\<bar>p - 100 * of_nat k / of_nat n\<bar> \<le> 1 / 10"
proof -
  define r :: rat where "r = of_int (int k) / of_int (int n)"
  define q where "q = to_float r"
  define m where "m = to_float (q * 100)"
  define z :: rat where "z = of_int (round_half_even (m * 10 ^ 1)) / 10 ^ 1"
  define p where "p = to_float z"
  have r: "0 \<le> r" "r \<le> 1"
    using assms by (simp_all add: r_def)
  then have "\<bar>r\<bar> < 2 powi 1" unfolding small_powers by linarith
  from to_float_error [OF this] have q: "\<bar>q - r\<bar> \<le> 1 / 1000000"
    unfolding q_def using small_powers(1) by linarith
  with r have "\<bar>q * 100\<bar> < 2 powi 7" unfolding small_powers by linarith
  from to_float_error [OF this] have m: "\<bar>m - q * 100\<bar> \<le> 1 / 1000000"
    unfolding m_def using small_powers(2) by linarith
  have "\<bar>of_int (round_half_even (m * 10)) - m * 10\<bar> \<le> 1 / 2"
    by (rule round_half_even_error)
  moreover have "z = of_int (round_half_even (m * 10)) / 10"
    by (simp add: z_def)
  ultimately have z: "\<bar>z - m\<bar> \<le> 1 / 20"
    by linarith
  from r q m z have "\<bar>z\<bar> < 2 powi 7" unfolding small_powers by linarith
  from to_float_error [OF this] have p: "\<bar>p - z\<bar> \<le> 1 / 1000000"
    unfolding p_def using small_powers(2) by linarith
  have "percentage k n = Inr p"
    using assms by (simp add: percentage_def int_true_divide_def float_mul_def float_round_def
        p_def z_def m_def q_def r_def)
  moreover have "100 * of_nat k / of_nat n = r * 100"
    by (simp add: r_def)
  then have "\<bar>p - 100 * of_nat k / of_nat n\<bar> \<le> 1 / 10"
    using q m z p by linarith
  ultimately show thesis by (rule that)
qed

text \<open>
  Values of the model: the floats written \<^verbatim>\<open>0.1\<close> and \<^verbatim>\<open>1/3\<close>, and four percentages.
  \<^verbatim>\<open>49 / 400 * 100\<close> is the float 12.25, a tie that \<^verbatim>\<open>round\<close> resolves to 12.2.
\<close>

lemma to_float_tenth: "to_float (1 / 10) = 3602879701896397 / 2 ^ 55"
  by code_simp

lemma to_float_third: "to_float (1 / 3) = 6004799503160661 / 2 ^ 54"
  by code_simp

lemma percentage_examples:
  "percentage 1 3 = Inr (to_float (333 / 10))"
  "percentage 1 8 = Inr (25 / 2)"
  "percentage 49 400 = Inr (to_float (122 / 10))"
  "percentage 7 7 = Inr 100"
  by code_simp+

subsection \<open>The summary\<close>

lemma three_way_count:
  assumes "\<forall>x \<in> set xs. f x = a \<or> f x = b \<or> f x = c" "a \<noteq> b" "a \<noteq> c" "b \<noteq> c"
  shows "length (filter (\<lambda>x. f x = a) xs) + length (filter (\<lambda>x. f x = b) xs)
           + length (filter (\<lambda>x. f x = c) xs) = length xs"
  using assms by (induction xs) auto

lemma flags_distinct:
  "green_flag \<noteq> yellow_flag" "green_flag \<noteq> red_flag" "yellow_flag \<noteq> red_flag"
  by (simp_all add: green_flag_def yellow_flag_def red_flag_def)

text \<open>
  Claim C7, as stated: on a table without rows a division by zero is raised. The table
  that the aggregators build when no item has a vote has no rows and no columns, and
  on it the selection of the flag column raises \<^verbatim>\<open>KeyError\<close> before any division.
\<close>

theorem generate_summary_stats_empty_KeyError:
  "rows (DataFrame []) = [] \<and>
   generate_summary_stats (DataFrame []) ''flag'' = Inl KeyError \<and>
   generate_summary_stats (DataFrame []) ''flag'' \<noteq> Inl ZeroDivisionError"
  by (simp add: generate_summary_stats_def flag_count_def DataFrame_def)

text \<open>
  Claim C7, amended. On a table without rows \<^const>\<open>generate_summary_stats\<close> returns
  no record: it raises \<^verbatim>\<open>ZeroDivisionError\<close> when the table has the flag column and
  \<^verbatim>\<open>KeyError\<close> when it has not.
\<close>

theorem generate_summary_stats_empty_raises:
  assumes "rows df = []"
  shows "generate_summary_stats df flag_column =
           Inl (if flag_column \<in> set (columns df) then ZeroDivisionError else KeyError)"
  using assms
  by (simp add: generate_summary_stats_def flag_count_def percentage_def int_true_divide_def)

text \<open>
  The theorem at an empty table with a flag column and at the table built from no rows.
\<close>

theorem generate_summary_stats_empty_raises_witness:
  "rows \<lparr>columns = [''trait'', ''flag''], rows = []\<rparr> = [] \<and>
   generate_summary_stats \<lparr>columns = [''trait'', ''flag''], rows = []\<rparr> ''flag''
     = Inl ZeroDivisionError \<and>
   rows (DataFrame []) = [] \<and>
   generate_summary_stats (DataFrame []) ''flag'' = Inl KeyError"
proof -
  have r1: "rows \<lparr>columns = [''trait'', ''flag''], rows = []\<rparr> = []" by simp
  have r2: "rows (DataFrame []) = []" by (simp add: DataFrame_def)
  have "generate_summary_stats \<lparr>columns = [''trait'', ''flag''], rows = []\<rparr> ''flag''
     = Inl ZeroDivisionError"
    using generate_summary_stats_empty_raises [OF r1, of "''flag''"] by simp
  moreover have "generate_summary_stats (DataFrame []) ''flag'' = Inl KeyError"
    using generate_summary_stats_empty_raises [OF r2, of "''flag''"] by (simp add: DataFrame_def)
  ultimately show ?thesis using r1 r2 by (intro conjI)
qed

text \<open>
  Claim C8. On a table with at least one row, whose flag column holds one of the three
  glyphs in every row, the three percentages differ from 100 in sum by at most 0.3. The
  percentages are the binary64 values that the three float operations produce.
\<close>

theorem generate_summary_stats_percentages:
  assumes "rows df \<noteq> []"
    and "flag_column \<in> set (columns df)"
    and "\<forall>r \<in> set (rows df). map_of r flag_column = Some (Some green_flag)
            \<or> map_of r flag_column = Some (Some yellow_flag)
            \<or> map_of r flag_column = Some (Some red_flag)"
  shows "\<exists>s. generate_summary_stats df flag_column = Inr s \<and>
           \<bar>green_pct s + yellow_pct s + red_pct s - 100\<bar> \<le> 3 / 10"
proof -
  define n where "n = length (rows df)"
  define g where "g = length (filter (\<lambda>r. map_of r flag_column = Some (Some green_flag)) (rows df))"
  define y where "y = length (filter (\<lambda>r. map_of r flag_column = Some (Some yellow_flag)) (rows df))"
  define r where "r = length (filter (\<lambda>r. map_of r flag_column = Some (Some red_flag)) (rows df))"
  have n: "0 < n" using assms(1) by (simp add: n_def)
  have sum: "g + y + r = n"
    unfolding g_def y_def r_def n_def
    using assms(3) flags_distinct by (intro three_way_count) auto
  then have le: "g \<le> n" "y \<le> n" "r \<le> n" by simp_all
  from percentage_error [OF le(1) n] obtain pg where
    pg: "percentage g n = Inr pg" "\<bar>pg - 100 * of_nat g / of_nat n\<bar> \<le> 1 / 10" by blast
  from percentage_error [OF le(2) n] obtain py where
    py: "percentage y n = Inr py" "\<bar>py - 100 * of_nat y / of_nat n\<bar> \<le> 1 / 10" by blast
  from percentage_error [OF le(3) n] obtain pr where
    pr: "percentage r n = Inr pr" "\<bar>pr - 100 * of_nat r / of_nat n\<bar> \<le> 1 / 10" by blast
  have "(of_nat g + of_nat y + of_nat r :: rat) = of_nat n"
    using sum by (metis of_nat_add)
  then have exact: "100 * of_nat g / of_nat n + 100 * of_nat y / of_nat n + 100 * of_nat r / (of_nat n :: rat) = 100"
    using n by (simp add: field_simps)
  have res: "generate_summary_stats df flag_column =
      Inr \<lparr>total = n, green = g, green_pct = pg, yellow = y, yellow_pct = py, red = r, red_pct = pr\<rparr>"
    using assms(2) pg(1) py(1) pr(1)
    by (simp add: generate_summary_stats_def flag_count_def n_def [symmetric] g_def [symmetric]
        y_def [symmetric] r_def [symmetric])
  have "\<bar>pg + py + pr - 100\<bar> \<le> 3 / 10"
    using pg(2) py(2) pr(2) exact by linarith
  with res show ?thesis by simp
qed

text \<open>
  The theorem at one green and two red rows, where the percentages are the floats
  nearest to 33.3, 0 and 66.7.
\<close>

theorem generate_summary_stats_percentages_witness:
  "rows (DataFrame [[(''flag'', Some green_flag)], [(''flag'', Some red_flag)],
                    [(''flag'', Some red_flag)]]) \<noteq> [] \<and>
   (\<exists>s. generate_summary_stats
           (DataFrame [[(''flag'', Some green_flag)], [(''flag'', Some red_flag)],
                       [(''flag'', Some red_flag)]]) ''flag'' = Inr s \<and>
        \<bar>green_pct s + yellow_pct s + red_pct s - 100\<bar> \<le> 3 / 10) \<and>
   generate_summary_stats
     (DataFrame [[(''flag'', Some green_flag)], [(''flag'', Some red_flag)],
                 [(''flag'', Some red_flag)]]) ''flag'' =
   Inr \<lparr>total = 3, green = 1, green_pct = 2343279181116211 / 2 ^ 46,
        yellow = 0, yellow_pct = 0, red = 2, red_pct = 4693595236650189 / 2 ^ 46\<rparr>"
proof -
  let ?df = "DataFrame [[(''flag'', Some green_flag)], [(''flag'', Some red_flag)],
                        [(''flag'', Some red_flag)]]"
  have ne: "rows ?df \<noteq> []" by (simp add: DataFrame_def)
  have col: "''flag'' \<in> set (columns ?df)" by (simp add: DataFrame_def)
  have fl: "\<forall>r \<in> set (rows ?df). map_of r ''flag'' = Some (Some green_flag)
            \<or> map_of r ''flag'' = Some (Some yellow_flag)
            \<or> map_of r ''flag'' = Some (Some red_flag)"
    by (simp add: DataFrame_def)
  have ev: "generate_summary_stats ?df ''flag'' =
    Inr \<lparr>total = 3, green = 1, green_pct = 2343279181116211 / 2 ^ 46,
         yellow = 0, yellow_pct = 0, red = 2, red_pct = 4693595236650189 / 2 ^ 46\<rparr>"
    by code_simp
  show ?thesis
    by (rule conjI [OF ne conjI [OF generate_summary_stats_percentages [OF ne col fl] ev]])
qed

end
